theory Spec2Isabelle
  imports Complex_Main "HOL-Library.Sublist"
begin

section \<open>The diff model (shared/diff/model.ts)\<close>

text \<open>
  The records have the type of their line numbers and line counts as a parameter. The
  parser fills them with the numbers of the host language (\<open>jsnum\<close> below: the value of
  \<^verbatim>\<open>Number\<close> on a match of \<^verbatim>\<open>\d+\<close>, rounded as a double is, and what
  \<^verbatim>\<open>+= 1\<close> makes of it). The row builders are modelled on natural numbers: on
  records whose numbers are exact. Strings are lists of characters, one \<open>char\<close> for
  each code unit, so only the 256 code units that \<open>char\<close> has are covered.
\<close>

datatype DiffFileStatus = StatusAdded | StatusModified | StatusDeleted

datatype DiffLineType = Context | Added | Removed

record 'n DiffLine =
  type :: DiffLineType
  content :: string
  oldLineNumber :: "'n option"
  newLineNumber :: "'n option"

record 'n DiffHunk =
  header :: string
  oldStart :: 'n
  oldLines :: 'n
  newStart :: 'n
  newLines :: 'n
  lines :: "'n DiffLine list"

record 'n DiffFile =
  oldPath :: "string option"
  newPath :: "string option"
  status :: DiffFileStatus
  hunks :: "'n DiffHunk list"

record 'n DiffParseResult =
  files :: "'n DiffFile list"

section \<open>String operations of the host language\<close>

definition LF :: char where "LF = CHR 0x0A"
definition CR :: char where "CR = CHR 0x0D"

text \<open>\<^verbatim>\<open>s.startsWith(p)\<close> is \<^term>\<open>prefix p s\<close>.\<close>

text \<open>
  \<^verbatim>\<open>String.prototype.trim\<close>: the white space among the first 256 code units is
  TAB, LF, VT, FF, CR, SPACE and NBSP.
\<close>

definition is_space :: "char \<Rightarrow> bool" where
  "is_space c = (c \<in> {CHR 0x09, CHR 0x0A, CHR 0x0B, CHR 0x0C, CHR 0x0D, CHR 0x20, CHR 0xA0})"

definition trim :: "string \<Rightarrow> string" where
  "trim s = rev (dropWhile is_space (rev (dropWhile is_space s)))"

text \<open>Decimal digits: the class \<^verbatim>\<open>\d\<close>, and the value of a string of digits.\<close>

definition is_digit :: "char \<Rightarrow> bool" where
  "is_digit c = (c \<in> set ''0123456789'')"

definition digit_value :: "char \<Rightarrow> nat" where
  "digit_value c = of_char c - (48::nat)"

definition decimal_value :: "string \<Rightarrow> nat" where
  "decimal_value ds = foldl (\<lambda>n c. 10 * n + digit_value c) 0 ds"

definition decimal_int :: "string \<Rightarrow> int" where
  "decimal_int ds = foldl (\<lambda>n c. 10 * n + int (digit_value c)) 0 ds"

text \<open>
  The numbers of the host language that the parser makes: doubles that are whole numbers,
  named by their integer value, and \<^verbatim>\<open>Infinity\<close>. \<open>round_double\<close> is the double
  nearest to a whole number, ties going to the even significand: a number below \<open>2^53\<close>
  is a double; a number of \<open>53 + e\<close> binary digits is rounded to a multiple of \<open>2^e\<close>;
  what rounds to \<open>2^1024\<close> or beyond is \<^verbatim>\<open>Infinity\<close>.
\<close>

datatype jsnum = Num int | Infinity

function bit_length :: "int \<Rightarrow> nat" where
  "bit_length v = (if v \<le> 0 then 0 else Suc (bit_length (v div 2)))"
  by pat_completeness auto
termination
  by (relation "measure nat") auto

declare bit_length.simps [simp del]

definition round_double :: "int \<Rightarrow> jsnum" where
  "round_double v =
     (if v < 9007199254740992 then Num v
      else
        let e = bit_length v - 53;
            q = v div 2 ^ e;
            r = v mod 2 ^ e;
            half = 2 ^ (e - 1);
            m = (if r < half \<or> (r = half \<and> q mod 2 = 0) then q else q + 1)
        in if 971 < e \<or> (e = 971 \<and> m = 9007199254740992) then Infinity
           else Num (m * 2 ^ e))"

text \<open>
  \<^verbatim>\<open>Number(s)\<close> on a string of decimal digits is the double nearest to its value (the
  engines round a numeral of any length correctly), and \<^verbatim>\<open>n + 1\<close> the double nearest
  to the sum; \<^verbatim>\<open>Infinity + 1\<close> is \<^verbatim>\<open>Infinity\<close>.
\<close>

definition Number :: "string \<Rightarrow> jsnum" where
  "Number ds = round_double (decimal_int ds)"

definition js_succ :: "jsnum \<Rightarrow> jsnum" where
  "js_succ x = (case x of Num v \<Rightarrow> round_double (v + 1) | Infinity \<Rightarrow> Infinity)"

text \<open>
  A natural number inside a template literal, \<^verbatim>\<open>`${n}`\<close>: its decimal digits without
  leading zeros.
\<close>

definition digit_char :: "nat \<Rightarrow> char" where
  "digit_char d = char_of (48 + d)"

fun show_nat :: "nat \<Rightarrow> string" where
  "show_nat n = (if n < 10 then [digit_char n] else show_nat (n div 10) @ [digit_char (n mod 10)])"

declare show_nat.simps [simp del]

text \<open>\<^verbatim>\<open>input.replace(/\r\n?/g, "\n")\<close> (shared/diff/normalize.ts).\<close>

fun normalizeLineEndings :: "string \<Rightarrow> string" where
  "normalizeLineEndings [] = []"
| "normalizeLineEndings [c] = (if c = CR then [LF] else [c])"
| "normalizeLineEndings (c # d # cs) =
     (if c = CR then
        (if d = LF then LF # normalizeLineEndings cs else LF # normalizeLineEndings (d # cs))
      else c # normalizeLineEndings (d # cs))"

text \<open>\<^verbatim>\<open>s.split("\n")\<close>: the pieces between line feeds; never the empty list.\<close>

fun split_lines :: "string \<Rightarrow> string list" where
  "split_lines [] = [[]]"
| "split_lines (c # cs) =
     (if c = LF then [] # split_lines cs
      else (case split_lines cs of [] \<Rightarrow> [[c]] | l # ls \<Rightarrow> (c # l) # ls))"

section \<open>The unified diff parser (shared/diff/parse.ts)\<close>

text \<open>
  \<^verbatim>\<open>DIFF_HEADER = /^diff --git a\/(.+?) b\/(.+)$/\<close>. The dot matches no line
  terminator and \<^verbatim>\<open>$\<close> is the end of the string, so a match needs a line without
  LF and CR after the fixed start. The first group is lazy: it is the shortest non-empty
  text that is followed by \<^verbatim>\<open> b/\<close> and at least one more character.
\<close>

fun lazy_split :: "string \<Rightarrow> string \<Rightarrow> (string \<times> string) option" where
  "lazy_split g1 [] = None"
| "lazy_split g1 (c # cs) =
     (if g1 \<noteq> [] \<and> prefix '' b/'' (c # cs) \<and> 3 < length (c # cs)
      then Some (g1, drop 3 (c # cs))
      else lazy_split (g1 @ [c]) cs)"

definition match_diff_header :: "string \<Rightarrow> (string \<times> string) option" where
  "match_diff_header line =
     (if prefix ''diff --git a/'' line \<and> (\<forall>c \<in> set line. c \<noteq> LF \<and> c \<noteq> CR)
      then lazy_split [] (drop 13 line)
      else None)"

text \<open>
  \<^verbatim>\<open>HUNK_HEADER = /^@@ -(\d+)(?:,(\d+))? \+(\d+)(?:,(\d+))? @@/\<close>. A number with its
  optional count: the longest run of digits, then a comma and a second run when both are
  there. No shorter choice can let the rest of the pattern match, since the character
  after a shorter run is a digit or the comma.
\<close>

definition match_range :: "string \<Rightarrow> (string \<times> string option \<times> string) option" where
  "match_range s =
     (let d1 = takeWhile is_digit s; r1 = dropWhile is_digit s in
      if d1 = [] then None
      else (case r1 of
              c # r2 \<Rightarrow>
                (if c = CHR '','' \<and> takeWhile is_digit r2 \<noteq> []
                 then Some (d1, Some (takeWhile is_digit r2), dropWhile is_digit r2)
                 else Some (d1, None, r1))
            | [] \<Rightarrow> Some (d1, None, r1)))"

definition match_hunk_header ::
    "string \<Rightarrow> (string \<times> string option \<times> string \<times> string option) option" where
  "match_hunk_header line =
     (if \<not> prefix ''@@ -'' line then None
      else (case match_range (drop 4 line) of
              None \<Rightarrow> None
            | Some (g1, g2, r) \<Rightarrow>
                (if \<not> prefix '' +'' r then None
                 else (case match_range (drop 2 r) of
                         None \<Rightarrow> None
                       | Some (g3, g4, r') \<Rightarrow>
                           (if prefix '' @@'' r' then Some (g1, g2, g3, g4) else None)))))"

definition ensureStatus :: "jsnum DiffFile \<Rightarrow> jsnum DiffFile" where
  \<comment> \<open>The last test of the source, \<^verbatim>\<open>if (!file.status)\<close>, never holds: each of the
      three status strings is non-empty.\<close>
  "ensureStatus file =
     (if oldPath file = None \<and> newPath file \<noteq> None then file\<lparr>status := StatusAdded\<rparr>
      else if newPath file = None \<and> oldPath file \<noteq> None then file\<lparr>status := StatusDeleted\<rparr>
      else file)"

text \<open>
  The variables of \<^verbatim>\<open>parseUnifiedDiff\<close>. \<^verbatim>\<open>currentFile\<close> and \<^verbatim>\<open>currentHunk\<close> are
  references to objects that sit in \<^verbatim>\<open>files\<close> and in the current file's hunks: here
  they are the positions of these objects, and a write through the reference is an update
  at the position.
\<close>

record parser =
  p_files :: "jsnum DiffFile list"
  currentFile :: "nat option"
  currentHunk :: "nat option"
  oldLine :: jsnum
  newLine :: jsnum

definition update_file :: "nat \<Rightarrow> (jsnum DiffFile \<Rightarrow> jsnum DiffFile) \<Rightarrow> parser \<Rightarrow> parser" where
  "update_file i f s = s\<lparr>p_files := (p_files s)[i := f (p_files s ! i)]\<rparr>"

definition update_hunk :: "nat \<Rightarrow> nat \<Rightarrow> (jsnum DiffHunk \<Rightarrow> jsnum DiffHunk) \<Rightarrow> parser \<Rightarrow> parser" where
  "update_hunk i j f s =
     update_file i (\<lambda>file. file\<lparr>hunks := (hunks file)[j := f (hunks file ! j)]\<rparr>) s"

definition push_line :: "nat \<Rightarrow> nat \<Rightarrow> jsnum DiffLine \<Rightarrow> parser \<Rightarrow> parser" where
  "push_line i j diffLine s = update_hunk i j (\<lambda>h. h\<lparr>lines := lines h @ [diffLine]\<rparr>) s"

definition strip_prefix :: "string \<Rightarrow> string \<Rightarrow> string" where
  \<comment> \<open>\<^verbatim>\<open>path.replace(/^a\//, "")\<close>\<close>
  "strip_prefix p s = (if prefix p s then drop (length p) s else s)"

definition parse_path :: "string \<Rightarrow> string \<Rightarrow> string option" where
  "parse_path p line =
     (let path = trim (drop 4 line) in
      if path = ''/dev/null'' then None else Some (strip_prefix p path))"

definition no_newline_marker :: string where
  "no_newline_marker = CHR 0x5C # '' No newline at end of file''"

text \<open>
  The body of the loop over the lines, one branch for each \<^verbatim>\<open>if\<close> of the source, in
  four parts: the branch of a file header (\<open>start_file\<close>), the branch of a hunk header
  (\<open>start_hunk\<close>), the tests on a line inside a hunk (\<open>hunk_line\<close>), and the tests that
  come after the file header test when there is a current file (\<open>file_line\<close>).
\<close>

definition start_file :: "parser \<Rightarrow> string \<Rightarrow> string \<Rightarrow> parser" where
  "start_file s g1 g2 =
     (let s1 = (case currentFile s of Some i \<Rightarrow> update_file i ensureStatus s | None \<Rightarrow> s)
      in s1\<lparr>p_files := p_files s1 @
               [\<lparr>oldPath = Some g1, newPath = Some g2, status = StatusModified, hunks = []\<rparr>],
             currentFile := Some (length (p_files s1)),
             currentHunk := None\<rparr>)"

definition start_hunk ::
    "parser \<Rightarrow> nat \<Rightarrow> string \<Rightarrow> string \<Rightarrow> string option \<Rightarrow> string \<Rightarrow> string option \<Rightarrow> parser" where
  "start_hunk s i line g1 g2 g3 g4 =
     (let oldStart = Number g1;
          oldLines = (case g2 of None \<Rightarrow> Num 1 | Some d \<Rightarrow> Number d);
          newStart = Number g3;
          newLines = (case g4 of None \<Rightarrow> Num 1 | Some d \<Rightarrow> Number d);
          hunk = \<lparr>header = line, oldStart = oldStart, oldLines = oldLines,
                  newStart = newStart, newLines = newLines, lines = []\<rparr>;
          j = length (hunks (p_files s ! i))
      in (update_file i (\<lambda>file. file\<lparr>hunks := hunks file @ [hunk]\<rparr>) s)
           \<lparr>currentHunk := Some j, oldLine := oldStart, newLine := newStart\<rparr>)"

definition hunk_line :: "parser \<Rightarrow> nat \<Rightarrow> nat \<Rightarrow> string \<Rightarrow> parser" where
  "hunk_line s i j line =
     (if prefix no_newline_marker line then s
      else if prefix ''+'' line then
        (if prefix ''+++'' line then s
         else (push_line i j
                 \<lparr>type = Added, content = drop 1 line,
                  oldLineNumber = None, newLineNumber = Some (newLine s)\<rparr> s)
               \<lparr>newLine := js_succ (newLine s)\<rparr>)
      else if prefix ''-'' line then
        (if prefix ''---'' line then s
         else (push_line i j
                 \<lparr>type = Removed, content = drop 1 line,
                  oldLineNumber = Some (oldLine s), newLineNumber = None\<rparr> s)
               \<lparr>oldLine := js_succ (oldLine s)\<rparr>)
      else if prefix '' '' line then
        (push_line i j
           \<lparr>type = Context, content = drop 1 line,
            oldLineNumber = Some (oldLine s), newLineNumber = Some (newLine s)\<rparr> s)
         \<lparr>oldLine := js_succ (oldLine s), newLine := js_succ (newLine s)\<rparr>
      else s)"

definition file_line :: "parser \<Rightarrow> nat \<Rightarrow> string \<Rightarrow> parser" where
  "file_line s i line =
     (if prefix ''new file mode'' line then
        update_file i (\<lambda>file. file\<lparr>status := StatusAdded\<rparr>) s
      else if prefix ''deleted file mode'' line then
        update_file i (\<lambda>file. file\<lparr>status := StatusDeleted\<rparr>) s
      else if prefix ''--- '' line then
        update_file i (\<lambda>file. file\<lparr>oldPath := parse_path ''a/'' line\<rparr>) s
      else if prefix ''+++ '' line then
        update_file i (\<lambda>file. file\<lparr>newPath := parse_path ''b/'' line\<rparr>) s
      else
        (case match_hunk_header line of
           Some (g1, g2, g3, g4) \<Rightarrow> start_hunk s i line g1 g2 g3 g4
         | None \<Rightarrow>
             (case currentHunk s of
                None \<Rightarrow> s
              | Some j \<Rightarrow> hunk_line s i j line)))"

definition parse_line :: "parser \<Rightarrow> string \<Rightarrow> parser" where
  "parse_line s line =
     (case match_diff_header line of
        Some (g1, g2) \<Rightarrow> start_file s g1 g2
      | None \<Rightarrow>
          (case currentFile s of
             None \<Rightarrow> s
           | Some i \<Rightarrow> file_line s i line))"

definition parser_init :: parser where
  "parser_init = \<lparr>p_files = [], currentFile = None, currentHunk = None, oldLine = Num 0, newLine = Num 0\<rparr>"

definition parseUnifiedDiff :: "string \<Rightarrow> jsnum DiffParseResult" where
  "parseUnifiedDiff rawDiff =
     (let lines = split_lines (normalizeLineEndings rawDiff);
          s = foldl parse_line parser_init lines
      in \<lparr>files = map ensureStatus (p_files s)\<rparr>)"

section \<open>The visual row builder (mainview/components/SideBySideDiff.tsx, buildVisualRows)\<close>

text \<open>
  The cells of a row are tagged unions over the field \<^verbatim>\<open>kind\<close>. A left cell is a spacer
  or has a kind and a line; a right cell is a spacer or has a kind, a line and the field
  \<^verbatim>\<open>anchorOldLine\<close>.
\<close>

datatype LeftKind = LContext | LRemoved | LChange

datatype RightKind = RContext | RAdded | RChange

datatype LeftCell = LCell LeftKind "nat DiffLine" | LSpacer

datatype RightCell = RCell RightKind "nat DiffLine" "nat option" | RSpacer

record VisualRow =
  rowId :: string
  left :: LeftCell
  right :: RightCell

datatype ConnectorMeta =
    ChangeConn (startRowId: string) (endRowId: string)
  | AddedConn (startRowId: string) (endRowId: string) (anchorOldLine: "nat option")
  | RemovedConn (startRowId: string) (endRowId: string) (anchorNewLine: "nat option")

text \<open>The assignment \<^verbatim>\<open>last.endRowId = connector.endRowId\<close>.\<close>

fun set_endRowId :: "string \<Rightarrow> ConnectorMeta \<Rightarrow> ConnectorMeta" where
  "set_endRowId e (ChangeConn s _) = ChangeConn s e"
| "set_endRowId e (AddedConn s _ a) = AddedConn s e a"
| "set_endRowId e (RemovedConn s _ a) = RemovedConn s e a"

definition ROW_HEIGHT :: nat where
  "ROW_HEIGHT = 24"

text \<open>\<^verbatim>\<open>n || null\<close> on a number, and \<^verbatim>\<open>x ?? d\<close> on an optional number.\<close>

definition or_null :: "nat \<Rightarrow> nat option" where
  "or_null n = (if n = 0 then None else Some n)"

definition or_else :: "'a option \<Rightarrow> 'a \<Rightarrow> 'a" where
  "or_else x d = (case x of Some v \<Rightarrow> v | None \<Rightarrow> d)"

text \<open>
  \<^verbatim>\<open>safeOldLines[n - 1] ?? ""\<close>: the line with the 1-based number \<open>n\<close>, and the empty
  string where the array has no such element (also for \<open>n = 0\<close>, the index \<open>-1\<close>).
\<close>

definition line_at :: "string list \<Rightarrow> nat \<Rightarrow> string" where
  "line_at ls n = (if 1 \<le> n \<and> n \<le> length ls then ls ! (n - 1) else [])"

text \<open>
  The mutable variables of \<^verbatim>\<open>buildVisualRows\<close> that its closures and loops share.
\<close>

record builder =
  rows :: "VisualRow list"
  connectors :: "ConnectorMeta list"
  lastOldLine :: nat
  lastNewLine :: nat
  nextOldLine :: nat
  nextNewLine :: nat

definition pushContextRow :: "string \<Rightarrow> string \<Rightarrow> nat \<Rightarrow> nat \<Rightarrow> builder \<Rightarrow> builder" where
  "pushContextRow rid text oldLineNumber' newLineNumber' s =
     (let line = \<lparr>type = Context, content = text,
                  oldLineNumber = Some oldLineNumber', newLineNumber = Some newLineNumber'\<rparr>
      in s\<lparr>rows := rows s @ [\<lparr>rowId = rid, left = LCell LContext line,
                                 right = RCell RContext line None\<rparr>],
            lastOldLine := oldLineNumber',
            lastNewLine := newLineNumber'\<rparr>)"

definition pushRemovedRow :: "string \<Rightarrow> string \<Rightarrow> nat \<Rightarrow> builder \<Rightarrow> builder" where
  "pushRemovedRow rid text oldLineNumber' s =
     (let line = \<lparr>type = Removed, content = text,
                  oldLineNumber = Some oldLineNumber', newLineNumber = None\<rparr>
      in s\<lparr>rows := rows s @ [\<lparr>rowId = rid, left = LCell LRemoved line, right = RSpacer\<rparr>],
            connectors := connectors s @ [RemovedConn rid rid (or_null (lastNewLine s))],
            lastOldLine := oldLineNumber'\<rparr>)"

definition pushAddedRow :: "string \<Rightarrow> string \<Rightarrow> nat \<Rightarrow> builder \<Rightarrow> builder" where
  "pushAddedRow rid text newLineNumber' s =
     (let line = \<lparr>type = Added, content = text,
                  oldLineNumber = None, newLineNumber = Some newLineNumber'\<rparr>
      in s\<lparr>rows := rows s @ [\<lparr>rowId = rid, left = LSpacer,
                                 right = RCell RAdded line (or_null (lastOldLine s))\<rparr>],
            connectors := connectors s @ [AddedConn rid rid (or_null (lastOldLine s))],
            lastNewLine := newLineNumber'\<rparr>)"

text \<open>
  \<^verbatim>\<open>pushGapLines\<close>. The ends can be \<open>-1\<close> (a hunk that starts at line 0), so they and
  the counts are integers. \<open>gap_step\<close> is the body of the loop over \<^verbatim>\<open>offset\<close>.
\<close>

definition gap_step ::
    "string list \<Rightarrow> string list \<Rightarrow> nat \<Rightarrow> nat \<Rightarrow> int \<Rightarrow> int \<Rightarrow> nat \<Rightarrow> builder \<Rightarrow> builder" where
  "gap_step safeOldLines safeNewLines oldStart' newStart' oldCount newCount offset s =
     (let oldLineNumber = oldStart' + offset;
          newLineNumber = newStart' + offset;
          hasOld = (int offset < oldCount);
          hasNew = (int offset < newCount)
      in if hasOld \<and> hasNew then
           pushContextRow
             (''context-full-'' @ show_nat oldLineNumber @ ''-'' @ show_nat newLineNumber)
             (line_at safeOldLines oldLineNumber) oldLineNumber newLineNumber s
         else if hasOld then
           pushRemovedRow (''removed-full-'' @ show_nat oldLineNumber)
             (line_at safeOldLines oldLineNumber) oldLineNumber s
         else if hasNew then
           pushAddedRow (''added-full-'' @ show_nat newLineNumber)
             (line_at safeNewLines newLineNumber) newLineNumber s
         else s)"

function gap_loop ::
    "string list \<Rightarrow> string list \<Rightarrow> nat \<Rightarrow> nat \<Rightarrow> int \<Rightarrow> int \<Rightarrow> int \<Rightarrow> nat \<Rightarrow> builder \<Rightarrow> builder" where
  "gap_loop safeOldLines safeNewLines oldStart' newStart' oldCount newCount maxCount offset s =
     (if int offset < maxCount then
        gap_loop safeOldLines safeNewLines oldStart' newStart' oldCount newCount maxCount (offset + 1)
          (gap_step safeOldLines safeNewLines oldStart' newStart' oldCount newCount offset s)
      else s)"
  by pat_completeness auto
termination
  by (relation "measure (\<lambda>(ol, nl, os, ns, oc, nc, maxCount, offset, s). nat (maxCount - int offset))")
     auto

declare gap_loop.simps [simp del]

definition pushGapLines ::
    "string list \<Rightarrow> string list \<Rightarrow> nat \<Rightarrow> int \<Rightarrow> nat \<Rightarrow> int \<Rightarrow> builder \<Rightarrow> builder" where
  "pushGapLines safeOldLines safeNewLines oldStart' oldEnd newStart' newEnd s =
     (if oldEnd < int oldStart' \<and> newEnd < int newStart' then s
      else
        let oldCount = max 0 (oldEnd - int oldStart' + 1);
            newCount = max 0 (newEnd - int newStart' + 1);
            maxCount = max oldCount newCount
        in gap_loop safeOldLines safeNewLines oldStart' newStart' oldCount newCount maxCount 0 s)"

text \<open>
  The loop over the lines of one hunk. \<open>hunk_step\<close> is its body: it returns the
  variables and the index \<open>i\<close>, which the two change branches advance by one; the loop
  header then adds one more.
\<close>

definition hunk_step :: "nat \<Rightarrow> nat DiffLine list \<Rightarrow> nat \<Rightarrow> builder \<Rightarrow> builder \<times> nat" where
  "hunk_step hunkIndex ls i s =
     (let line = ls ! i;
          nxt = (if i + 1 < length ls then Some (ls ! (i + 1)) else None)
      in if type line = Context then
           (let rid = ''context-'' @ show_nat hunkIndex @ ''-'' @ show_nat i
            in (s\<lparr>rows := rows s @ [\<lparr>rowId = rid, left = LCell LContext line,
                                       right = RCell RContext line None\<rparr>],
                  lastOldLine := or_else (oldLineNumber line) (lastOldLine s),
                  lastNewLine := or_else (newLineNumber line) (lastNewLine s)\<rparr>, i))
         else if type line = Removed \<and> map_option type nxt = Some Added then
           (let rid = ''change-'' @ show_nat hunkIndex @ ''-'' @ show_nat i;
                nextLine = ls ! (i + 1)
            in (s\<lparr>rows := rows s @ [\<lparr>rowId = rid, left = LCell LChange line,
                                       right = RCell RChange nextLine None\<rparr>],
                  connectors := connectors s @ [ChangeConn rid rid],
                  lastOldLine := or_else (oldLineNumber line) (lastOldLine s),
                  lastNewLine := or_else (newLineNumber nextLine) (lastNewLine s)\<rparr>, i + 1))
         else if type line = Added \<and> map_option type nxt = Some Removed then
           (let rid = ''change-'' @ show_nat hunkIndex @ ''-'' @ show_nat i;
                nextLine = ls ! (i + 1)
            in (s\<lparr>rows := rows s @ [\<lparr>rowId = rid, left = LCell LChange nextLine,
                                       right = RCell RChange line None\<rparr>],
                  connectors := connectors s @ [ChangeConn rid rid],
                  lastOldLine := or_else (oldLineNumber nextLine) (lastOldLine s),
                  lastNewLine := or_else (newLineNumber line) (lastNewLine s)\<rparr>, i + 1))
         else if type line = Removed then
           (let rid = ''removed-'' @ show_nat hunkIndex @ ''-'' @ show_nat i
            in (s\<lparr>rows := rows s @ [\<lparr>rowId = rid, left = LCell LRemoved line, right = RSpacer\<rparr>],
                  connectors := connectors s @ [RemovedConn rid rid (or_null (lastNewLine s))],
                  lastOldLine := or_else (oldLineNumber line) (lastOldLine s)\<rparr>, i))
         else if type line = Added then
           (let rid = ''added-'' @ show_nat hunkIndex @ ''-'' @ show_nat i
            in (s\<lparr>rows := rows s @ [\<lparr>rowId = rid, left = LSpacer,
                                       right = RCell RAdded line (or_null (lastOldLine s))\<rparr>],
                  connectors := connectors s @ [AddedConn rid rid (or_null (lastOldLine s))],
                  lastNewLine := or_else (newLineNumber line) (lastNewLine s)\<rparr>, i))
         else (s, i))"

function hunk_loop :: "nat \<Rightarrow> nat DiffLine list \<Rightarrow> nat \<Rightarrow> builder \<Rightarrow> builder" where
  "hunk_loop hunkIndex ls i s =
     (if i < length ls then
        hunk_loop hunkIndex ls (snd (hunk_step hunkIndex ls i s) + 1)
          (fst (hunk_step hunkIndex ls i s))
      else s)"
  by pat_completeness auto
termination
  by (relation "measure (\<lambda>(hunkIndex, ls, i, s). length ls - i)")
     (auto simp: hunk_step_def Let_def)

declare hunk_loop.simps [simp del]

text \<open>The body of \<^verbatim>\<open>file.hunks.forEach((hunk, hunkIndex) => ...)\<close>, and the loop.\<close>

definition do_hunk ::
    "bool \<Rightarrow> string list \<Rightarrow> string list \<Rightarrow> nat DiffHunk \<Rightarrow> nat \<Rightarrow> builder \<Rightarrow> builder" where
  "do_hunk hasFullFiles safeOldLines safeNewLines hunk hunkIndex s =
     (let s1 = (if hasFullFiles then
                  pushGapLines safeOldLines safeNewLines
                    (nextOldLine s) (int (oldStart hunk) - 1)
                    (nextNewLine s) (int (newStart hunk) - 1) s
                else s);
          s2 = hunk_loop hunkIndex (lines hunk) 0 s1
      in s2\<lparr>nextOldLine := oldStart hunk + oldLines hunk,
             nextNewLine := newStart hunk + newLines hunk\<rparr>)"

fun hunks_loop ::
    "bool \<Rightarrow> string list \<Rightarrow> string list \<Rightarrow> nat DiffHunk list \<Rightarrow> nat \<Rightarrow> builder \<Rightarrow> builder" where
  "hunks_loop hasFullFiles safeOldLines safeNewLines [] hunkIndex s = s"
| "hunks_loop hasFullFiles safeOldLines safeNewLines (hunk # rest) hunkIndex s =
     hunks_loop hasFullFiles safeOldLines safeNewLines rest (hunkIndex + 1)
       (do_hunk hasFullFiles safeOldLines safeNewLines hunk hunkIndex s)"

text \<open>
  \<^verbatim>\<open>rowIndexMap\<close>: a \<^verbatim>\<open>Map\<close> filled with \<^verbatim>\<open>set(row.rowId, index)\<close> in the order of
  the rows, so the last row with an identifier gives its index. \<^verbatim>\<open>map.get(k) ?? -1\<close>
  is \<open>get_index\<close>.
\<close>

definition index_map :: "string list \<Rightarrow> (string \<rightharpoonup> nat)" where
  "index_map ids = foldl (\<lambda>m (index, k). m(k \<mapsto> index)) Map.empty (enumerate 0 ids)"

definition get_index :: "(string \<rightharpoonup> nat) \<Rightarrow> string \<Rightarrow> int" where
  "get_index m k = (case m k of Some index \<Rightarrow> int index | None \<Rightarrow> - 1)"

fun is_change :: "ConnectorMeta \<Rightarrow> bool" where
  "is_change (ChangeConn _ _) = True" | "is_change _ = False"

fun is_added :: "ConnectorMeta \<Rightarrow> bool" where
  "is_added (AddedConn _ _ _) = True" | "is_added _ = False"

fun is_removed :: "ConnectorMeta \<Rightarrow> bool" where
  "is_removed (RemovedConn _ _ _) = True" | "is_removed _ = False"

text \<open>
  The grouping pass: the body of \<^verbatim>\<open>for (const connector of connectors)\<close>, where
  \<open>lastC\<close> is the last element of \<^verbatim>\<open>grouped\<close>.
\<close>

definition group_step ::
    "(string \<rightharpoonup> nat) \<Rightarrow> ConnectorMeta list \<Rightarrow> ConnectorMeta \<Rightarrow> ConnectorMeta list" where
  "group_step rowIndexMap grouped connector =
     (if grouped = [] then grouped @ [connector]
      else
        let lastC = last grouped;
            lastIndex = get_index rowIndexMap (endRowId lastC);
            currentIndex = get_index rowIndexMap (startRowId connector);
            isConsecutive = (currentIndex = lastIndex + 1)
        in if isConsecutive \<and> is_change connector \<and> is_change lastC then
             butlast grouped @ [set_endRowId (endRowId connector) lastC]
           else if isConsecutive \<and> is_added connector \<and> is_added lastC
                   \<and> anchorOldLine connector = anchorOldLine lastC then
             butlast grouped @ [set_endRowId (endRowId connector) lastC]
           else if isConsecutive \<and> is_removed connector \<and> is_removed lastC
                   \<and> anchorNewLine connector = anchorNewLine lastC then
             butlast grouped @ [set_endRowId (endRowId connector) lastC]
           else grouped @ [connector])"

definition builder_init :: builder where
  "builder_init = \<lparr>rows = [], connectors = [], lastOldLine = 0, lastNewLine = 0,
                   nextOldLine = 1, nextNewLine = 1\<rparr>"

text \<open>
  \<^verbatim>\<open>Boolean(oldFileLines?.length || newFileLines?.length)\<close>: an absent array and an empty
  one both give a falsy length.
\<close>

definition has_full_files :: "string list option \<Rightarrow> string list option \<Rightarrow> bool" where
  "has_full_files oldFileLines newFileLines =
     ((case oldFileLines of None \<Rightarrow> False | Some ls \<Rightarrow> length ls \<noteq> 0)
      \<or> (case newFileLines of None \<Rightarrow> False | Some ls \<Rightarrow> length ls \<noteq> 0))"

text \<open>Everything before the grouping pass: the rows and the raw connectors.\<close>

definition build_rows :: "nat DiffFile \<Rightarrow> string list option \<Rightarrow> string list option \<Rightarrow> builder" where
  "build_rows file oldFileLines newFileLines =
     (let hasFullFiles = has_full_files oldFileLines newFileLines;
          safeOldLines = or_else oldFileLines [];
          safeNewLines = or_else newFileLines [];
          totalOldLines = length safeOldLines;
          totalNewLines = length safeNewLines;
          s = hunks_loop hasFullFiles safeOldLines safeNewLines (hunks file) 0 builder_init
      in if hasFullFiles then
           pushGapLines safeOldLines safeNewLines
             (nextOldLine s) (int totalOldLines) (nextNewLine s) (int totalNewLines) s
         else s)"

text \<open>The result \<^verbatim>\<open>{ rows, connectors: grouped }\<close> as a pair.\<close>

definition buildVisualRows ::
    "nat DiffFile \<Rightarrow> string list option \<Rightarrow> string list option
      \<Rightarrow> VisualRow list \<times> ConnectorMeta list" where
  "buildVisualRows file oldFileLines newFileLines =
     (let s = build_rows file oldFileLines newFileLines;
          rowIndexMap = index_map (map rowId (rows s));
          grouped = foldl (group_step rowIndexMap) [] (connectors s)
      in (rows s, grouped))"

section \<open>The column builder of the layout-measured variant (buildColumns)\<close>

text \<open>
  The second variant of the component keeps two lists of items, one for each column, and
  no spacers. Its local names are those of \<^verbatim>\<open>buildVisualRows\<close>; here they carry a
  final \<open>C\<close> where the two would clash, and the fields of the items a first letter.
\<close>

record LeftItem =
  l_rowId :: string
  l_line :: "nat DiffLine"
  l_kind :: LeftKind

record RightItem =
  r_rowId :: string
  r_line :: "nat DiffLine"
  r_kind :: RightKind
  r_anchorOldLine :: "nat option"

record builderC =
  leftItems :: "LeftItem list"
  rightItems :: "RightItem list"
  connectorsC :: "ConnectorMeta list"
  lastOldLineC :: nat
  lastNewLineC :: nat
  nextOldLineC :: nat
  nextNewLineC :: nat

definition pushContextRowC :: "string \<Rightarrow> string \<Rightarrow> nat \<Rightarrow> nat \<Rightarrow> builderC \<Rightarrow> builderC" where
  "pushContextRowC rid text oldLineNumber' newLineNumber' s =
     (let line = \<lparr>type = Context, content = text,
                  oldLineNumber = Some oldLineNumber', newLineNumber = Some newLineNumber'\<rparr>
      in s\<lparr>leftItems := leftItems s @ [\<lparr>l_rowId = rid, l_line = line, l_kind = LContext\<rparr>],
            rightItems := rightItems s @
              [\<lparr>r_rowId = rid, r_line = line, r_kind = RContext, r_anchorOldLine = None\<rparr>],
            lastOldLineC := oldLineNumber',
            lastNewLineC := newLineNumber'\<rparr>)"

definition pushRemovedRowC :: "string \<Rightarrow> string \<Rightarrow> nat \<Rightarrow> builderC \<Rightarrow> builderC" where
  "pushRemovedRowC rid text oldLineNumber' s =
     (let line = \<lparr>type = Removed, content = text,
                  oldLineNumber = Some oldLineNumber', newLineNumber = None\<rparr>
      in s\<lparr>leftItems := leftItems s @ [\<lparr>l_rowId = rid, l_line = line, l_kind = LRemoved\<rparr>],
            connectorsC := connectorsC s @ [RemovedConn rid rid (or_null (lastNewLineC s))],
            lastOldLineC := oldLineNumber'\<rparr>)"

definition pushAddedRowC :: "string \<Rightarrow> string \<Rightarrow> nat \<Rightarrow> builderC \<Rightarrow> builderC" where
  "pushAddedRowC rid text newLineNumber' s =
     (let line = \<lparr>type = Added, content = text,
                  oldLineNumber = None, newLineNumber = Some newLineNumber'\<rparr>
      in s\<lparr>rightItems := rightItems s @
              [\<lparr>r_rowId = rid, r_line = line, r_kind = RAdded,
                r_anchorOldLine = or_null (lastOldLineC s)\<rparr>],
            connectorsC := connectorsC s @ [AddedConn rid rid (or_null (lastOldLineC s))],
            lastNewLineC := newLineNumber'\<rparr>)"

definition gap_stepC ::
    "string list \<Rightarrow> string list \<Rightarrow> nat \<Rightarrow> nat \<Rightarrow> int \<Rightarrow> int \<Rightarrow> nat \<Rightarrow> builderC \<Rightarrow> builderC" where
  "gap_stepC safeOldLines safeNewLines oldStart' newStart' oldCount newCount offset s =
     (let oldLineNumber = oldStart' + offset;
          newLineNumber = newStart' + offset;
          hasOld = (int offset < oldCount);
          hasNew = (int offset < newCount)
      in if hasOld \<and> hasNew then
           pushContextRowC
             (''context-full-'' @ show_nat oldLineNumber @ ''-'' @ show_nat newLineNumber)
             (line_at safeOldLines oldLineNumber) oldLineNumber newLineNumber s
         else if hasOld then
           pushRemovedRowC (''removed-full-'' @ show_nat oldLineNumber)
             (line_at safeOldLines oldLineNumber) oldLineNumber s
         else if hasNew then
           pushAddedRowC (''added-full-'' @ show_nat newLineNumber)
             (line_at safeNewLines newLineNumber) newLineNumber s
         else s)"

function gap_loopC ::
    "string list \<Rightarrow> string list \<Rightarrow> nat \<Rightarrow> nat \<Rightarrow> int \<Rightarrow> int \<Rightarrow> int \<Rightarrow> nat \<Rightarrow> builderC \<Rightarrow> builderC" where
  "gap_loopC safeOldLines safeNewLines oldStart' newStart' oldCount newCount maxCount offset s =
     (if int offset < maxCount then
        gap_loopC safeOldLines safeNewLines oldStart' newStart' oldCount newCount maxCount (offset + 1)
          (gap_stepC safeOldLines safeNewLines oldStart' newStart' oldCount newCount offset s)
      else s)"
  by pat_completeness auto
termination
  by (relation "measure (\<lambda>(ol, nl, os, ns, oc, nc, maxCount, offset, s). nat (maxCount - int offset))")
     auto

declare gap_loopC.simps [simp del]

definition pushGapLinesC ::
    "string list \<Rightarrow> string list \<Rightarrow> nat \<Rightarrow> int \<Rightarrow> nat \<Rightarrow> int \<Rightarrow> builderC \<Rightarrow> builderC" where
  "pushGapLinesC safeOldLines safeNewLines oldStart' oldEnd newStart' newEnd s =
     (if oldEnd < int oldStart' \<and> newEnd < int newStart' then s
      else
        let oldCount = max 0 (oldEnd - int oldStart' + 1);
            newCount = max 0 (newEnd - int newStart' + 1);
            maxCount = max oldCount newCount
        in gap_loopC safeOldLines safeNewLines oldStart' newStart' oldCount newCount maxCount 0 s)"

definition hunk_stepC :: "nat \<Rightarrow> nat DiffLine list \<Rightarrow> nat \<Rightarrow> builderC \<Rightarrow> builderC \<times> nat" where
  "hunk_stepC hunkIndex ls i s =
     (let line = ls ! i;
          nxt = (if i + 1 < length ls then Some (ls ! (i + 1)) else None)
      in if type line = Context then
           (let rid = ''context-'' @ show_nat hunkIndex @ ''-'' @ show_nat i
            in (s\<lparr>leftItems := leftItems s @ [\<lparr>l_rowId = rid, l_line = line, l_kind = LContext\<rparr>],
                  rightItems := rightItems s @
                    [\<lparr>r_rowId = rid, r_line = line, r_kind = RContext, r_anchorOldLine = None\<rparr>],
                  lastOldLineC := or_else (oldLineNumber line) (lastOldLineC s),
                  lastNewLineC := or_else (newLineNumber line) (lastNewLineC s)\<rparr>, i))
         else if type line = Removed \<and> map_option type nxt = Some Added then
           (let rid = ''change-'' @ show_nat hunkIndex @ ''-'' @ show_nat i;
                nextLine = ls ! (i + 1)
            in (s\<lparr>leftItems := leftItems s @ [\<lparr>l_rowId = rid, l_line = line, l_kind = LChange\<rparr>],
                  rightItems := rightItems s @
                    [\<lparr>r_rowId = rid, r_line = nextLine, r_kind = RChange, r_anchorOldLine = None\<rparr>],
                  connectorsC := connectorsC s @ [ChangeConn rid rid],
                  lastOldLineC := or_else (oldLineNumber line) (lastOldLineC s),
                  lastNewLineC := or_else (newLineNumber nextLine) (lastNewLineC s)\<rparr>, i + 1))
         else if type line = Added \<and> map_option type nxt = Some Removed then
           (let rid = ''change-'' @ show_nat hunkIndex @ ''-'' @ show_nat i;
                nextLine = ls ! (i + 1)
            in (s\<lparr>leftItems := leftItems s @ [\<lparr>l_rowId = rid, l_line = nextLine, l_kind = LChange\<rparr>],
                  rightItems := rightItems s @
                    [\<lparr>r_rowId = rid, r_line = line, r_kind = RChange, r_anchorOldLine = None\<rparr>],
                  connectorsC := connectorsC s @ [ChangeConn rid rid],
                  lastOldLineC := or_else (oldLineNumber nextLine) (lastOldLineC s),
                  lastNewLineC := or_else (newLineNumber line) (lastNewLineC s)\<rparr>, i + 1))
         else if type line = Removed then
           (let rid = ''removed-'' @ show_nat hunkIndex @ ''-'' @ show_nat i
            in (s\<lparr>leftItems := leftItems s @ [\<lparr>l_rowId = rid, l_line = line, l_kind = LRemoved\<rparr>],
                  connectorsC := connectorsC s @ [RemovedConn rid rid (or_null (lastNewLineC s))],
                  lastOldLineC := or_else (oldLineNumber line) (lastOldLineC s)\<rparr>, i))
         else if type line = Added then
           (let rid = ''added-'' @ show_nat hunkIndex @ ''-'' @ show_nat i
            in (s\<lparr>rightItems := rightItems s @
                    [\<lparr>r_rowId = rid, r_line = line, r_kind = RAdded,
                      r_anchorOldLine = or_null (lastOldLineC s)\<rparr>],
                  connectorsC := connectorsC s @ [AddedConn rid rid (or_null (lastOldLineC s))],
                  lastNewLineC := or_else (newLineNumber line) (lastNewLineC s)\<rparr>, i))
         else (s, i))"

function hunk_loopC :: "nat \<Rightarrow> nat DiffLine list \<Rightarrow> nat \<Rightarrow> builderC \<Rightarrow> builderC" where
  "hunk_loopC hunkIndex ls i s =
     (if i < length ls then
        hunk_loopC hunkIndex ls (snd (hunk_stepC hunkIndex ls i s) + 1)
          (fst (hunk_stepC hunkIndex ls i s))
      else s)"
  by pat_completeness auto
termination
  by (relation "measure (\<lambda>(hunkIndex, ls, i, s). length ls - i)")
     (auto simp: hunk_stepC_def Let_def)

declare hunk_loopC.simps [simp del]

definition do_hunkC ::
    "bool \<Rightarrow> string list \<Rightarrow> string list \<Rightarrow> nat DiffHunk \<Rightarrow> nat \<Rightarrow> builderC \<Rightarrow> builderC" where
  "do_hunkC hasFullFiles safeOldLines safeNewLines hunk hunkIndex s =
     (let s1 = (if hasFullFiles then
                  pushGapLinesC safeOldLines safeNewLines
                    (nextOldLineC s) (int (oldStart hunk) - 1)
                    (nextNewLineC s) (int (newStart hunk) - 1) s
                else s);
          s2 = hunk_loopC hunkIndex (lines hunk) 0 s1
      in s2\<lparr>nextOldLineC := oldStart hunk + oldLines hunk,
             nextNewLineC := newStart hunk + newLines hunk\<rparr>)"

fun hunks_loopC ::
    "bool \<Rightarrow> string list \<Rightarrow> string list \<Rightarrow> nat DiffHunk list \<Rightarrow> nat \<Rightarrow> builderC \<Rightarrow> builderC" where
  "hunks_loopC hasFullFiles safeOldLines safeNewLines [] hunkIndex s = s"
| "hunks_loopC hasFullFiles safeOldLines safeNewLines (hunk # rest) hunkIndex s =
     hunks_loopC hasFullFiles safeOldLines safeNewLines rest (hunkIndex + 1)
       (do_hunkC hasFullFiles safeOldLines safeNewLines hunk hunkIndex s)"

text \<open>
  The grouping pass of this variant looks indices up in \<^verbatim>\<open>leftIndexMap\<close> when the
  connector or the last grouped one is of type removed, and in \<^verbatim>\<open>rightIndexMap\<close>
  otherwise.
\<close>

definition group_stepC ::
    "(string \<rightharpoonup> nat) \<Rightarrow> (string \<rightharpoonup> nat) \<Rightarrow> ConnectorMeta list \<Rightarrow> ConnectorMeta
      \<Rightarrow> ConnectorMeta list" where
  "group_stepC leftIndexMap rightIndexMap grouped connector =
     (if grouped = [] then grouped @ [connector]
      else
        let lastC = last grouped;
            indexMap = (if is_removed connector \<or> is_removed lastC
                        then leftIndexMap else rightIndexMap);
            lastIndex = get_index indexMap (endRowId lastC);
            currentIndex = get_index indexMap (startRowId connector);
            isConsecutive = (currentIndex = lastIndex + 1)
        in if isConsecutive \<and> is_change connector \<and> is_change lastC then
             butlast grouped @ [set_endRowId (endRowId connector) lastC]
           else if isConsecutive \<and> is_added connector \<and> is_added lastC
                   \<and> anchorOldLine connector = anchorOldLine lastC then
             butlast grouped @ [set_endRowId (endRowId connector) lastC]
           else if isConsecutive \<and> is_removed connector \<and> is_removed lastC
                   \<and> anchorNewLine connector = anchorNewLine lastC then
             butlast grouped @ [set_endRowId (endRowId connector) lastC]
           else grouped @ [connector])"

definition builderC_init :: builderC where
  "builderC_init = \<lparr>leftItems = [], rightItems = [], connectorsC = [],
                    lastOldLineC = 0, lastNewLineC = 0, nextOldLineC = 1, nextNewLineC = 1\<rparr>"

definition build_columns ::
    "nat DiffFile \<Rightarrow> string list option \<Rightarrow> string list option \<Rightarrow> builderC" where
  "build_columns file oldFileLines newFileLines =
     (let hasFullFiles = has_full_files oldFileLines newFileLines;
          safeOldLines = or_else oldFileLines [];
          safeNewLines = or_else newFileLines [];
          totalOldLines = length safeOldLines;
          totalNewLines = length safeNewLines;
          s = hunks_loopC hasFullFiles safeOldLines safeNewLines (hunks file) 0 builderC_init
      in if hasFullFiles then
           pushGapLinesC safeOldLines safeNewLines
             (nextOldLineC s) (int totalOldLines) (nextNewLineC s) (int totalNewLines) s
         else s)"

text \<open>The result \<^verbatim>\<open>{ leftItems, rightItems, connectors: grouped }\<close> as a triple.\<close>

definition buildColumns ::
    "nat DiffFile \<Rightarrow> string list option \<Rightarrow> string list option
      \<Rightarrow> LeftItem list \<times> RightItem list \<times> ConnectorMeta list" where
  "buildColumns file oldFileLines newFileLines =
     (let s = build_columns file oldFileLines newFileLines;
          leftIndexMap = index_map (map l_rowId (leftItems s));
          rightIndexMap = index_map (map r_rowId (rightItems s));
          grouped = foldl (group_stepC leftIndexMap rightIndexMap) [] (connectorsC s)
      in (leftItems s, rightItems s, grouped))"

section \<open>The analytical projection (SideBySideDiff.tsx, the component's tables and offsets)\<close>

text \<open>
  The loop \<^verbatim>\<open>for (const row of rows)\<close> of the component pushes the counts \<^verbatim>\<open>lc\<close>
  and \<^verbatim>\<open>rc\<close> of the real cells seen so far to \<^verbatim>\<open>lRun\<close> and \<^verbatim>\<open>rRun\<close> and then
  counts the row's cells. The same loop fills the item arrays and index maps; of these
  only the counts enter the offsets, and only they are modelled.
\<close>

record running =
  lRun :: "nat list"
  rRun :: "nat list"
  lc :: nat
  rc :: nat

definition running_step :: "running \<Rightarrow> VisualRow \<Rightarrow> running" where
  "running_step t row =
     (let t1 = t\<lparr>lRun := lRun t @ [lc t], rRun := rRun t @ [rc t]\<rparr>;
          t2 = (if left row \<noteq> LSpacer then t1\<lparr>lc := lc t1 + 1\<rparr> else t1)
      in (if right row \<noteq> RSpacer then t2\<lparr>rc := rc t2 + 1\<rparr> else t2))"

definition running_init :: running where
  "running_init = \<lparr>lRun = [], rRun = [], lc = 0, rc = 0\<rparr>"

definition leftRunning :: "VisualRow list \<Rightarrow> nat list" where
  "leftRunning rs = lRun (foldl running_step running_init rs)"

definition rightRunning :: "VisualRow list \<Rightarrow> nat list" where
  "rightRunning rs = rRun (foldl running_step running_init rs)"

text \<open>\<^verbatim>\<open>xs[idx] ?? d\<close> for an integer index.\<close>

definition nth_or :: "'a list \<Rightarrow> int \<Rightarrow> 'a \<Rightarrow> 'a" where
  "nth_or xs idx d = (if 0 \<le> idx \<and> idx < int (length xs) then xs ! nat idx else d)"

text \<open>
  \<^verbatim>\<open>computeOffsets(st)\<close>, the pair \<^verbatim>\<open>(leftScrollY, rightScrollY)\<close>. The scroll position
  and the offsets are real numbers here: the arithmetic is exact, without the rounding of
  the host's floating point numbers.
\<close>

definition computeOffsets :: "VisualRow list \<Rightarrow> real \<Rightarrow> real \<times> real" where
  "computeOffsets rs st =
     (if length rs = 0 then (0, 0)
      else
        let unifiedRow = st / real ROW_HEIGHT;
            idx = max 0 (min \<lfloor>unifiedRow\<rfloor> (int (length rs) - 1));
            frac = max 0 (unifiedRow - real_of_int idx);
            lBase = real (nth_or (leftRunning rs) idx 0) * real ROW_HEIGHT;
            rBase = real (nth_or (rightRunning rs) idx 0) * real ROW_HEIGHT
        in (lBase + (if left (rs ! nat idx) \<noteq> LSpacer then frac * real ROW_HEIGHT else 0),
            rBase + (if right (rs ! nat idx) \<noteq> RSpacer then frac * real ROW_HEIGHT else 0)))"

text \<open>
  Where a row is drawn. Each pane holds its real cells in order, every one
  \<^verbatim>\<open>ROW_HEIGHT\<close> high, and is translated by minus its scroll offset
  (\<^verbatim>\<open>translateY(${-leftScrollY}px)\<close>); the cell of row \<open>i\<close> is item number
  \<^verbatim>\<open>leftRunning[i]\<close> of the left pane (\<^verbatim>\<open>rowIdToLeftIdx.set(row.rowId, lc)\<close>). The
  connectors use the same expression, \<^verbatim>\<open>ls * ROW_HEIGHT - leftScrollY\<close>.
\<close>

definition leftVisualY :: "VisualRow list \<Rightarrow> nat \<Rightarrow> real \<Rightarrow> real" where
  "leftVisualY rs i st = real (leftRunning rs ! i) * real ROW_HEIGHT - fst (computeOffsets rs st)"

definition rightVisualY :: "VisualRow list \<Rightarrow> nat \<Rightarrow> real \<Rightarrow> real" where
  "rightVisualY rs i st = real (rightRunning rs ! i) * real ROW_HEIGHT - snd (computeOffsets rs st)"

section \<open>Inline change differ (SideBySideDiff.tsx, buildInlineDiff)\<close>

text \<open>
  \<^verbatim>\<open>type InlineDiff = { before: string; changed: string; after: string }\<close>.
  The function returns \<^verbatim>\<open>{ old: InlineDiff; next: InlineDiff }\<close>; the field
  \<^verbatim>\<open>next\<close> is called \<open>nxt\<close> here, \<open>next\<close> being a keyword.
\<close>

record InlineDiff =
  before :: string
  changed :: string
  after :: string

record InlineDiffPair =
  old :: InlineDiff
  nxt :: InlineDiff

text \<open>
  \<^verbatim>\<open>String.prototype.slice(start, end)\<close> on integer arguments: a negative index counts
  from the end, both are clamped to the string, and an empty string results when the end
  does not lie after the start.
\<close>

definition slice_index :: "nat \<Rightarrow> int \<Rightarrow> nat" where
  "slice_index n a = (if a < 0 then nat (max (int n + a) 0) else nat (min a (int n)))"

definition slice :: "string \<Rightarrow> int \<Rightarrow> int \<Rightarrow> string" where
  "slice s a b = take (slice_index (length s) b - slice_index (length s) a)
                      (drop (slice_index (length s) a) s)"

definition slice_from :: "string \<Rightarrow> int \<Rightarrow> string" where
  "slice_from s a = drop (slice_index (length s) a) s"

text \<open>The first \<^verbatim>\<open>while\<close> loop: advance the counter \<^verbatim>\<open>prefix\<close> (here \<open>prefixN\<close>) while both strings agree there.\<close>

function prefix_loop :: "string \<Rightarrow> string \<Rightarrow> nat \<Rightarrow> nat" where
  "prefix_loop oldText newText prefixN =
     (if prefixN < length oldText \<and> prefixN < length newText
         \<and> oldText ! prefixN = newText ! prefixN
      then prefix_loop oldText newText (prefixN + 1)
      else prefixN)"
  by pat_completeness auto
termination
  by (relation "measure (\<lambda>(oldText, newText, prefixN). length oldText - prefixN)") auto

declare prefix_loop.simps [simp del]

text \<open>
  The second loop: advance \<^verbatim>\<open>suffix\<close> (here \<open>suffixN\<close>) from the right ends, never past the characters the
  prefix already took. The guards are on JavaScript numbers, hence on \<open>int\<close> here.
\<close>

function suffix_loop :: "string \<Rightarrow> string \<Rightarrow> nat \<Rightarrow> nat \<Rightarrow> nat" where
  "suffix_loop oldText newText prefixN suffixN =
     (if int suffixN < int (length oldText) - int prefixN
         \<and> int suffixN < int (length newText) - int prefixN
         \<and> oldText ! (length oldText - 1 - suffixN) = newText ! (length newText - 1 - suffixN)
      then suffix_loop oldText newText prefixN (suffixN + 1)
      else suffixN)"
  by pat_completeness auto
termination
  by (relation "measure (\<lambda>(oldText, newText, prefixN, suffixN). length oldText - suffixN)") auto

declare suffix_loop.simps [simp del]

definition buildInlineDiff :: "string \<Rightarrow> string \<Rightarrow> InlineDiffPair" where
  "buildInlineDiff oldText newText =
     (if oldText = [] \<and> newText = [] then
        \<lparr>old = \<lparr>before = [], changed = [], after = []\<rparr>,
         nxt = \<lparr>before = [], changed = [], after = []\<rparr>\<rparr>
      else
        let oldLength = length oldText;
            newLength = length newText;
            prefixN = prefix_loop oldText newText 0;
            suffixN = suffix_loop oldText newText prefixN 0
        in \<lparr>old = \<lparr>before = slice oldText 0 (int prefixN),
                   changed = slice oldText (int prefixN) (int oldLength - int suffixN),
                   after = slice_from oldText (int oldLength - int suffixN)\<rparr>,
            nxt = \<lparr>before = slice newText 0 (int prefixN),
                   changed = slice newText (int prefixN) (int newLength - int suffixN),
                   after = slice_from newText (int newLength - int suffixN)\<rparr>\<rparr>)"

text \<open>
  The spec's words for the two shared parts: the longest common prefix is the library's
  \<^const>\<open>longest_common_prefix\<close>; the longest common suffix is its mirror image.
\<close>

definition longest_common_suffix :: "'a list \<Rightarrow> 'a list \<Rightarrow> 'a list" where
  "longest_common_suffix xs ys = rev (longest_common_prefix (rev xs) (rev ys))"

section \<open>Notions of the specification\<close>

text \<open>
  The specification's line-ending normalisation, in its words: every \<^verbatim>\<open>\r\n\<close> is
  replaced by \<^verbatim>\<open>\n\<close>, and every bare \<^verbatim>\<open>\r\<close> is replaced by \<^verbatim>\<open>\n\<close>.
\<close>

fun replace_crlf :: "string \<Rightarrow> string" where
  "replace_crlf [] = []"
| "replace_crlf [c] = [c]"
| "replace_crlf (c # d # cs) =
     (if c = CR \<and> d = LF then LF # replace_crlf cs else c # replace_crlf (d # cs))"

definition replace_bare_cr :: "string \<Rightarrow> string" where
  "replace_bare_cr s = map (\<lambda>c. if c = CR then LF else c) s"

definition lf_only :: "string \<Rightarrow> string" where
  "lf_only s = replace_bare_cr (replace_crlf s)"

text \<open>All lines of a parse result.\<close>

definition result_lines :: "'n DiffParseResult \<Rightarrow> 'n DiffLine list" where
  "result_lines r = concat (map lines (concat (map hunks (files r))))"

text \<open>No content string among the files of a parser state, or in a file, contains a CR.\<close>

definition content_ok :: "parser \<Rightarrow> bool" where
  "content_ok s = (\<forall>f \<in> set (p_files s). \<forall>h \<in> set (hunks f). \<forall>l \<in> set (lines h). CR \<notin> set (content l))"

definition file_ok :: "'n DiffFile \<Rightarrow> bool" where
  "file_ok f = (\<forall>h \<in> set (hunks f). \<forall>l \<in> set (lines h). CR \<notin> set (content l))"


text \<open>
  The line-number invariant. A line is present on the old side unless it is added, and on
  the new side unless it is removed; it carries a number on the sides where it is present
  and on no other (\<open>line_sides\<close>). The running counter of a side at position \<open>k\<close> of a
  hunk is the hunk's start on that side plus the number of earlier lines of the hunk that
  are present on that side, as an exact sum (\<open>js_plus\<close>). A line is numbered exactly
  when the numbers it carries are these counters.
\<close>

definition on_old :: "'n DiffLine \<Rightarrow> bool" where
  "on_old l = (type l \<noteq> Added)"

definition on_new :: "'n DiffLine \<Rightarrow> bool" where
  "on_new l = (type l \<noteq> Removed)"

definition line_sides :: "'n DiffLine \<Rightarrow> bool" where
  "line_sides l = ((oldLineNumber l \<noteq> None) = on_old l \<and> (newLineNumber l \<noteq> None) = on_new l)"

definition js_plus :: "jsnum \<Rightarrow> nat \<Rightarrow> jsnum" where
  "js_plus x n = (case x of Num v \<Rightarrow> Num (v + int n) | Infinity \<Rightarrow> Infinity)"

definition old_counter :: "jsnum DiffHunk \<Rightarrow> nat \<Rightarrow> jsnum" where
  "old_counter h k = js_plus (oldStart h) (length (filter on_old (take k (lines h))))"

definition new_counter :: "jsnum DiffHunk \<Rightarrow> nat \<Rightarrow> jsnum" where
  "new_counter h k = js_plus (newStart h) (length (filter on_new (take k (lines h))))"

definition old_numbered :: "jsnum DiffHunk \<Rightarrow> nat \<Rightarrow> bool" where
  "old_numbered h k =
     (oldLineNumber (lines h ! k) = (if on_old (lines h ! k) then Some (old_counter h k) else None))"

definition new_numbered :: "jsnum DiffHunk \<Rightarrow> nat \<Rightarrow> bool" where
  "new_numbered h k =
     (newLineNumber (lines h ! k) = (if on_new (lines h ! k) then Some (new_counter h k) else None))"

definition exactly_numbered :: "jsnum DiffHunk \<Rightarrow> nat \<Rightarrow> bool" where
  "exactly_numbered h k = (old_numbered h k \<and> new_numbered h k)"

text \<open>
  The invariant within the whole numbers that doubles count exactly: a line has its sides,
  and the number it carries on a side is the counter of that side when this counter is
  below \<open>2^53\<close>.
\<close>

definition below_limit :: "jsnum \<Rightarrow> bool" where
  "below_limit x = (case x of Num v \<Rightarrow> v < 9007199254740992 | Infinity \<Rightarrow> False)"

definition line_numbered :: "jsnum DiffHunk \<Rightarrow> nat \<Rightarrow> bool" where
  "line_numbered h k =
     (line_sides (lines h ! k)
      \<and> (below_limit (old_counter h k) \<longrightarrow> old_numbered h k)
      \<and> (below_limit (new_counter h k) \<longrightarrow> new_numbered h k))"

definition hunk_numbered :: "jsnum DiffHunk \<Rightarrow> bool" where
  "hunk_numbered h = (\<forall>k < length (lines h). line_numbered h k)"

text \<open>
  The parser's invariant for it: every hunk is numbered, and the counters \<^verbatim>\<open>oldLine\<close>
  and \<^verbatim>\<open>newLine\<close> are those of the end of the current hunk while these are below
  \<open>2^53\<close>.
\<close>

definition counters_ok :: "parser \<Rightarrow> bool" where
  "counters_ok s =
     ((\<forall>f \<in> set (p_files s). \<forall>h \<in> set (hunks f). hunk_numbered h)
      \<and> (\<forall>i j. currentFile s = Some i \<and> currentHunk s = Some j
                \<and> i < length (p_files s) \<and> j < length (hunks (p_files s ! i))
             \<longrightarrow> (below_limit (old_counter (hunks (p_files s ! i) ! j)
                                   (length (lines (hunks (p_files s ! i) ! j))))
                    \<longrightarrow> oldLine s = old_counter (hunks (p_files s ! i) ! j)
                                       (length (lines (hunks (p_files s ! i) ! j))))
                 \<and> (below_limit (new_counter (hunks (p_files s ! i) ! j)
                                   (length (lines (hunks (p_files s ! i) ! j))))
                    \<longrightarrow> newLine s = new_counter (hunks (p_files s ! i) ! j)
                                       (length (lines (hunks (p_files s ! i) ! j))))))"

text \<open>
  A record whose numbers are natural numbers, as the record of the parser with the same
  numbers.
\<close>

definition js_line :: "nat DiffLine \<Rightarrow> jsnum DiffLine" where
  "js_line l =
     \<lparr>type = type l, content = content l,
      oldLineNumber = map_option (\<lambda>n. Num (int n)) (oldLineNumber l),
      newLineNumber = map_option (\<lambda>n. Num (int n)) (newLineNumber l)\<rparr>"

definition js_hunk :: "nat DiffHunk \<Rightarrow> jsnum DiffHunk" where
  "js_hunk h =
     \<lparr>header = header h, oldStart = Num (int (oldStart h)), oldLines = Num (int (oldLines h)),
      newStart = Num (int (newStart h)), newLines = Num (int (newLines h)),
      lines = map js_line (lines h)\<rparr>"

definition js_file :: "nat DiffFile \<Rightarrow> jsnum DiffFile" where
  "js_file f =
     \<lparr>oldPath = oldPath f, newPath = newPath f, status = status f,
      hunks = map js_hunk (hunks f)\<rparr>"

text \<open>
  Status inference. The section of a file is made of the lines after its
  \<^verbatim>\<open>diff --git\<close> header up to the next such header; \<open>section_bodies\<close> lists the sections
  of an input in order. The status that the explicit mode lines of a section set is that
  of the last \<^verbatim>\<open>new file mode\<close> or \<^verbatim>\<open>deleted file mode\<close> line, and "modified" when
  the section has no such line.
\<close>

definition is_file_header :: "string \<Rightarrow> bool" where
  "is_file_header l = (match_diff_header l \<noteq> None)"

definition section_step :: "string list list \<Rightarrow> string \<Rightarrow> string list list" where
  "section_step acc l =
     (if is_file_header l then acc @ [[]]
      else if acc = [] then []
      else butlast acc @ [last acc @ [l]])"

definition section_bodies :: "string list \<Rightarrow> string list list" where
  "section_bodies ls = foldl section_step [] ls"

definition mode_step :: "DiffFileStatus \<Rightarrow> string \<Rightarrow> DiffFileStatus" where
  "mode_step st l =
     (if prefix ''new file mode'' l then StatusAdded
      else if prefix ''deleted file mode'' l then StatusDeleted
      else st)"

definition explicit_status :: "string list \<Rightarrow> DiffFileStatus" where
  "explicit_status body = foldl mode_step StatusModified body"

definition only_new :: "'n DiffFile \<Rightarrow> bool" where
  "only_new f = (oldPath f = None \<and> newPath f \<noteq> None)"

definition only_old :: "'n DiffFile \<Rightarrow> bool" where
  "only_old f = (newPath f = None \<and> oldPath f \<noteq> None)"

definition status_inferred :: "'n DiffFile \<Rightarrow> string list \<Rightarrow> bool" where
  "status_inferred f body =
     ((only_new f \<longrightarrow> status f = StatusAdded)
      \<and> (only_old f \<longrightarrow> status f = StatusDeleted)
      \<and> (\<not> only_new f \<and> \<not> only_old f \<longrightarrow> status f = explicit_status body))"

text \<open>The parser's invariant for it, after the lines \<open>xs\<close>.\<close>

definition sections_ok :: "parser \<Rightarrow> string list \<Rightarrow> bool" where
  "sections_ok s xs =
     (length (p_files s) = length (section_bodies xs)
      \<and> currentFile s = (if p_files s = [] then None else Some (length (p_files s) - 1))
      \<and> (p_files s \<noteq> [] \<longrightarrow> status (last (p_files s)) = explicit_status (last (section_bodies xs)))
      \<and> (\<forall>k. k + 1 < length (p_files s) \<longrightarrow>
            (\<not> only_new (p_files s ! k) \<and> \<not> only_old (p_files s ! k)
               \<longrightarrow> status (p_files s ! k) = explicit_status (section_bodies xs ! k))))"

text \<open>
  Visual-row completeness. The real rows of a side are the rows whose cell on that side
  is not a spacer.
\<close>

definition real_left :: "VisualRow list \<Rightarrow> nat" where
  "real_left rs = length (filter (\<lambda>r. left r \<noteq> LSpacer) rs)"

definition real_right :: "VisualRow list \<Rightarrow> nat" where
  "real_right rs = length (filter (\<lambda>r. right r \<noteq> RSpacer) rs)"

text \<open>
  Well-formed hunks, consistent with full contents of \<open>M\<close> old and \<open>N\<close> new lines, in the
  reading of the unified format: a side of a hunk with a count above zero covers the lines
  from its start on, as many as the count says; a side with the count zero covers no line,
  and its start is the line before the hunk, which is 0 at the beginning of a file (the
  header \<^verbatim>\<open>-0,0\<close> of an added file, \<^verbatim>\<open>+0,0\<close> of a deleted one). The hunks are in
  increasing order without overlap, the last one ends within the file, and the counts are
  the tallies of the lines: removed plus context lines on the old side, added plus context
  lines on the new side.
\<close>

definition side_fits :: "nat \<Rightarrow> nat \<Rightarrow> nat \<Rightarrow> bool" where
  "side_fits nextLine start count = (if count = 0 then nextLine \<le> start + 1 else nextLine \<le> start)"

definition side_next :: "nat \<Rightarrow> nat \<Rightarrow> nat" where
  "side_next start count = (if count = 0 then start + 1 else start + count)"

fun hunks_well_formed :: "nat \<Rightarrow> nat \<Rightarrow> nat \<Rightarrow> nat \<Rightarrow> nat DiffHunk list \<Rightarrow> bool" where
  "hunks_well_formed M N nextOld nextNew [] = (nextOld \<le> M + 1 \<and> nextNew \<le> N + 1)"
| "hunks_well_formed M N nextOld nextNew (h # hs) =
     (side_fits nextOld (oldStart h) (oldLines h) \<and> side_fits nextNew (newStart h) (newLines h)
      \<and> oldLines h = length (filter on_old (lines h))
      \<and> newLines h = length (filter on_new (lines h))
      \<and> hunks_well_formed M N (side_next (oldStart h) (oldLines h))
            (side_next (newStart h) (newLines h)) hs)"

definition well_formed_hunks :: "nat \<Rightarrow> nat \<Rightarrow> nat DiffHunk list \<Rightarrow> bool" where
  "well_formed_hunks M N hs = hunks_well_formed M N 1 1 hs"

text \<open>
  The reading of the builder: every side of a hunk, whatever its count, sits at its start
  and is followed by the line \<open>start + count\<close>. The hunks fit when, in this reading, every
  hunk starts at or after the line that follows the previous hunk (line 1 for the first
  hunk), the last hunk ends within the file, and the counts are the tallies.
\<close>

fun hunks_fit :: "nat \<Rightarrow> nat \<Rightarrow> nat \<Rightarrow> nat \<Rightarrow> nat DiffHunk list \<Rightarrow> bool" where
  "hunks_fit M N nextOld nextNew [] = (nextOld \<le> M + 1 \<and> nextNew \<le> N + 1)"
| "hunks_fit M N nextOld nextNew (h # hs) =
     (nextOld \<le> oldStart h \<and> nextNew \<le> newStart h
      \<and> oldLines h = length (filter on_old (lines h))
      \<and> newLines h = length (filter on_new (lines h))
      \<and> hunks_fit M N (oldStart h + oldLines h) (newStart h + newLines h) hs)"

text \<open>A row of context kind: both cells are context cells.\<close>

fun is_context_row :: "VisualRow \<Rightarrow> bool" where
  "is_context_row r =
     (case (left r, right r) of
        (LCell LContext _, RCell RContext _ _) \<Rightarrow> True
      | _ \<Rightarrow> False)"

text \<open>
  A gap row, in the specification's words: a context row synthesized from the full-file
  contents, here for the old line \<open>ol\<close> and the new line \<open>nl\<close>, with the text of the old
  line.
\<close>

definition context_gap_row :: "string list \<Rightarrow> nat \<Rightarrow> nat \<Rightarrow> VisualRow" where
  "context_gap_row oldFileLines ol nl =
     (let line = \<lparr>type = Context, content = line_at oldFileLines ol,
                  oldLineNumber = Some ol, newLineNumber = Some nl\<rparr>
      in \<lparr>rowId = ''context-full-'' @ show_nat ol @ ''-'' @ show_nat nl,
          left = LCell LContext line, right = RCell RContext line None\<rparr>)"

text \<open>
  The two builders. The real left cells of a list of rows, each with its row identifier,
  line and kind, in order; the same for the right cells, with the anchor. \<open>columns_of\<close>
  reads the variables of \<^verbatim>\<open>buildColumns\<close> off those of \<^verbatim>\<open>buildVisualRows\<close>.
\<close>

fun left_item_of :: "VisualRow \<Rightarrow> LeftItem option" where
  "left_item_of r =
     (case left r of
        LCell k l \<Rightarrow> Some \<lparr>l_rowId = rowId r, l_line = l, l_kind = k\<rparr>
      | LSpacer \<Rightarrow> None)"

fun right_item_of :: "VisualRow \<Rightarrow> RightItem option" where
  "right_item_of r =
     (case right r of
        RCell k l a \<Rightarrow> Some \<lparr>r_rowId = rowId r, r_line = l, r_kind = k, r_anchorOldLine = a\<rparr>
      | RSpacer \<Rightarrow> None)"

definition left_items_of :: "VisualRow list \<Rightarrow> LeftItem list" where
  "left_items_of rs = List.map_filter left_item_of rs"

definition right_items_of :: "VisualRow list \<Rightarrow> RightItem list" where
  "right_items_of rs = List.map_filter right_item_of rs"

definition columns_of :: "builder \<Rightarrow> builderC" where
  "columns_of s =
     \<lparr>leftItems = left_items_of (rows s), rightItems = right_items_of (rows s),
      connectorsC = connectors s,
      lastOldLineC = lastOldLine s, lastNewLineC = lastNewLine s,
      nextOldLineC = nextOldLine s, nextNewLineC = nextNewLine s\<rparr>"

text \<open>
  The kind of a connector, and the kind of connector that a row gets: none for a context
  row, and for the three other forms of row the connector of that kind on the row.
\<close>

datatype ConnKind = KChange | KAdded | KRemoved

fun conn_kind :: "ConnectorMeta \<Rightarrow> ConnKind" where
  "conn_kind (ChangeConn _ _) = KChange"
| "conn_kind (AddedConn _ _ _) = KAdded"
| "conn_kind (RemovedConn _ _ _) = KRemoved"

fun row_kind :: "VisualRow \<Rightarrow> ConnKind option" where
  "row_kind r =
     (case (left r, right r) of
        (LCell LChange _, RCell RChange _ _) \<Rightarrow> Some KChange
      | (LSpacer, RCell RAdded _ _) \<Rightarrow> Some KAdded
      | (LCell LRemoved _, RSpacer) \<Rightarrow> Some KRemoved
      | _ \<Rightarrow> None)"

text \<open>The four forms of row that the builder makes.\<close>

fun row_formed :: "VisualRow \<Rightarrow> bool" where
  "row_formed r =
     (case (left r, right r) of
        (LCell LContext _, RCell RContext _ _) \<Rightarrow> True
      | (LCell LChange _, RCell RChange _ _) \<Rightarrow> True
      | (LSpacer, RCell RAdded _ _) \<Rightarrow> True
      | (LCell LRemoved _, RSpacer) \<Rightarrow> True
      | _ \<Rightarrow> False)"

text \<open>
  The raw connectors of a builder state are those of its rows, in order: every row that is
  not a context row has one connector of its kind from the row to itself.
\<close>

definition row_conn :: "VisualRow \<Rightarrow> (ConnKind \<times> string) option" where
  "row_conn r = map_option (\<lambda>k. (k, rowId r)) (row_kind r)"

definition conn_tag :: "ConnectorMeta \<Rightarrow> ConnKind \<times> string" where
  "conn_tag c = (conn_kind c, startRowId c)"

definition raw_ok :: "builder \<Rightarrow> bool" where
  "raw_ok s =
     (map conn_tag (connectors s) = List.map_filter row_conn (rows s)
      \<and> (\<forall>c \<in> set (connectors s). endRowId c = startRowId c)
      \<and> (\<forall>r \<in> set (rows s). row_formed r))"

text \<open>
  The structure of the row identifiers. A row of a hunk is named after its kind, the
  index of the hunk and the index of the line; a row of a gap after its kind and its line
  numbers. \<open>render\<close> gives the identifier as the builders write it.
\<close>

datatype HunkRowKind = HContext | HChange | HRemoved | HAdded

fun kind_prefix :: "HunkRowKind \<Rightarrow> string" where
  "kind_prefix HContext = ''context-''"
| "kind_prefix HChange = ''change-''"
| "kind_prefix HRemoved = ''removed-''"
| "kind_prefix HAdded = ''added-''"

datatype RowKey =
    HunkKey HunkRowKind nat nat
  | ContextFull nat nat
  | RemovedFull nat
  | AddedFull nat

fun render :: "RowKey \<Rightarrow> string" where
  "render (HunkKey kd h i) = kind_prefix kd @ show_nat h @ ''-'' @ show_nat i"
| "render (ContextFull ol nl) = ''context-full-'' @ show_nat ol @ ''-'' @ show_nat nl"
| "render (RemovedFull ol) = ''removed-full-'' @ show_nat ol"
| "render (AddedFull nl) = ''added-full-'' @ show_nat nl"

text \<open>
  The keys made so far when the builder is at line \<open>i\<close> of hunk \<open>k\<close> and the gaps have
  reached the old line \<open>bo\<close> and the new line \<open>bn\<close>.
\<close>

fun made_before :: "nat \<Rightarrow> nat \<Rightarrow> nat \<Rightarrow> nat \<Rightarrow> RowKey \<Rightarrow> bool" where
  "made_before k i bo bn (HunkKey kd h j) = (h < k \<or> (h = k \<and> j < i))"
| "made_before k i bo bn (ContextFull ol nl) = (ol < bo)"
| "made_before k i bo bn (RemovedFull ol) = (ol < bo)"
| "made_before k i bo bn (AddedFull nl) = (nl < bn)"

definition keys_inv :: "nat \<Rightarrow> nat \<Rightarrow> nat \<Rightarrow> nat \<Rightarrow> string list \<Rightarrow> bool" where
  "keys_inv k i bo bn ids =
     (\<exists>keys. ids = map render keys \<and> distinct keys \<and> (\<forall>a \<in> set keys. made_before k i bo bn a))"

text \<open>
  The line that the rows of a gap have reached on one side after \<open>offset\<close> steps, for a
  gap that starts at \<open>start\<close> with \<open>count\<close> lines when the earlier gaps have reached \<open>b\<close>.
\<close>

definition gap_reach :: "nat \<Rightarrow> nat \<Rightarrow> nat \<Rightarrow> nat \<Rightarrow> nat" where
  "gap_reach b start offset count = (if min offset count = 0 then b else start + min offset count)"

text \<open>
  Hunks in ascending order: on each side no hunk ends, by the start and the count of its
  header, before the start of an earlier hunk. \<open>bo\<close> and \<open>bn\<close> are the greatest starts so
  far. Hunks that each start at or after the end of the previous one are in ascending
  order, also when a side starts at line 0.
\<close>

fun hunks_ascending :: "nat \<Rightarrow> nat \<Rightarrow> nat DiffHunk list \<Rightarrow> bool" where
  "hunks_ascending bo bn [] = True"
| "hunks_ascending bo bn (h # hs) =
     (bo \<le> oldStart h + oldLines h \<and> bn \<le> newStart h + newLines h
      \<and> hunks_ascending (max bo (oldStart h)) (max bn (newStart h)) hs)"

text \<open>
  Connector grouping, in the specification's words: the current connector is merged into
  the last grouped one exactly when both are of the same kind, the current connector's
  start row index immediately follows the last one's end row index, and, for the kinds
  added and removed, the anchor line numbers are identical.
\<close>

fun conn_anchor :: "ConnectorMeta \<Rightarrow> nat option" where
  "conn_anchor (ChangeConn _ _) = None"
| "conn_anchor (AddedConn _ _ a) = a"
| "conn_anchor (RemovedConn _ _ a) = a"

definition merges :: "(string \<rightharpoonup> nat) \<Rightarrow> ConnectorMeta \<Rightarrow> ConnectorMeta \<Rightarrow> bool" where
  "merges indexMap lastC c =
     (conn_kind c = conn_kind lastC
      \<and> get_index indexMap (startRowId c) = get_index indexMap (endRowId lastC) + 1
      \<and> (conn_kind c \<noteq> KChange \<longrightarrow> conn_anchor c = conn_anchor lastC))"

text \<open>The identifier of the added row for line \<open>i\<close> of hunk \<open>hunkIndex\<close>.\<close>

definition added_id :: "nat \<Rightarrow> nat \<Rightarrow> string" where
  "added_id hunkIndex i = ''added-'' @ show_nat hunkIndex @ ''-'' @ show_nat i"

text \<open>
  The connectors in terms of the rows. A row that is not a context row gets a raw
  connector of its kind from the row to itself; an added row is anchored at the last old
  line number seen so far, a removed row at the last new line number seen so far (none
  when it is 0). The line numbers seen are those of the cells of the rows before.
\<close>

definition seen_old :: "nat \<Rightarrow> VisualRow \<Rightarrow> nat" where
  "seen_old so r = (case left r of LCell k l \<Rightarrow> or_else (oldLineNumber l) so | LSpacer \<Rightarrow> so)"

definition seen_new :: "nat \<Rightarrow> VisualRow \<Rightarrow> nat" where
  "seen_new sn r = (case right r of RCell k l a \<Rightarrow> or_else (newLineNumber l) sn | RSpacer \<Rightarrow> sn)"

definition row_connector :: "nat \<Rightarrow> nat \<Rightarrow> VisualRow \<Rightarrow> ConnectorMeta option" where
  "row_connector so sn r =
     (case row_kind r of
        None \<Rightarrow> None
      | Some KChange \<Rightarrow> Some (ChangeConn (rowId r) (rowId r))
      | Some KAdded \<Rightarrow> Some (AddedConn (rowId r) (rowId r) (or_null so))
      | Some KRemoved \<Rightarrow> Some (RemovedConn (rowId r) (rowId r) (or_null sn)))"

fun raw_connectors :: "nat \<Rightarrow> nat \<Rightarrow> VisualRow list \<Rightarrow> ConnectorMeta list" where
  "raw_connectors so sn [] = []"
| "raw_connectors so sn (r # rs) =
     (case row_connector so sn r of None \<Rightarrow> [] | Some c \<Rightarrow> [c])
       @ raw_connectors (seen_old so r) (seen_new sn r) rs"

text \<open>
  The grouping in the specification's words, on the rows themselves: the connector of a
  row joins the connector of the row directly before it when both are of the same kind
  and, for the kinds added and removed, have the same anchor; the joined connector then
  ends at this row. \<open>runs cur so sn rs\<close> are the grouped connectors of the rows \<open>rs\<close> when
  \<open>cur\<close> is the connector that ends at the row directly before them, if there is one.
\<close>

definition same_run :: "ConnectorMeta \<Rightarrow> ConnectorMeta \<Rightarrow> bool" where
  "same_run lastC c =
     (conn_kind c = conn_kind lastC
      \<and> (conn_kind c \<noteq> KChange \<longrightarrow> conn_anchor c = conn_anchor lastC))"

fun runs :: "ConnectorMeta option \<Rightarrow> nat \<Rightarrow> nat \<Rightarrow> VisualRow list \<Rightarrow> ConnectorMeta list" where
  "runs cur so sn [] = (case cur of None \<Rightarrow> [] | Some c \<Rightarrow> [c])"
| "runs cur so sn (r # rs) =
     (case row_connector so sn r of
        None \<Rightarrow> (case cur of None \<Rightarrow> [] | Some c \<Rightarrow> [c])
                 @ runs None (seen_old so r) (seen_new sn r) rs
      | Some d \<Rightarrow>
          (case cur of
             None \<Rightarrow> runs (Some d) (seen_old so r) (seen_new sn r) rs
           | Some c \<Rightarrow>
               if same_run c d
               then runs (Some (set_endRowId (rowId r) c)) (seen_old so r) (seen_new sn r) rs
               else c # runs (Some d) (seen_old so r) (seen_new sn r) rs))"

definition row_runs :: "VisualRow list \<Rightarrow> ConnectorMeta list" where
  "row_runs rs = runs None 0 0 rs"

text \<open>The builder's invariant for it: its connectors and last line numbers are those of its rows.\<close>

definition scan_ok :: "builder \<Rightarrow> bool" where
  "scan_ok s =
     (connectors s = raw_connectors 0 0 (rows s)
      \<and> lastOldLine s = foldl seen_old 0 (rows s)
      \<and> lastNewLine s = foldl seen_new 0 (rows s))"

text \<open>
  The sums that the builder forms from the headers, start plus count on each side, are
  below \<open>2^53\<close>: there the numbers of the host language add exactly, as the natural
  numbers of this model do.
\<close>

definition sums_below_limit :: "nat DiffHunk list \<Rightarrow> bool" where
  "sums_below_limit hs =
     (\<forall>h \<in> set hs. oldStart h + oldLines h < 9007199254740992
                   \<and> newStart h + newLines h < 9007199254740992)"

section \<open>Concrete inputs\<close>

text \<open>The modified-file diff of the parser's tests, with CRLF after the first line.\<close>

definition example_modified :: string where
  "example_modified =
     ''diff --git a/src/a.txt b/src/a.txt'' @ [CR, LF] @
     ''index 123..456 100644'' @ [LF] @
     ''--- a/src/a.txt'' @ [LF] @
     ''+++ b/src/a.txt'' @ [LF] @
     ''@@ -1,2 +1,2 @@'' @ [LF] @
     ''-hello'' @ [LF] @
     ''+hello world'' @ [LF] @
     '' keep''"

definition example_hunk :: "nat DiffHunk" where
  "example_hunk =
     \<lparr>header = ''@@ -1,2 +1,2 @@'', oldStart = 1, oldLines = 2, newStart = 1, newLines = 2,
      lines = [\<lparr>type = Removed, content = ''hello'', oldLineNumber = Some 1, newLineNumber = None\<rparr>,
               \<lparr>type = Added, content = ''hello world'', oldLineNumber = None, newLineNumber = Some 1\<rparr>,
               \<lparr>type = Context, content = ''keep'', oldLineNumber = Some 2, newLineNumber = Some 2\<rparr>]\<rparr>"

definition example_file :: "nat DiffFile" where
  "example_file =
     \<lparr>oldPath = Some ''src/a.txt'', newPath = Some ''src/a.txt'', status = StatusModified,
      hunks = [example_hunk]\<rparr>"

text \<open>An added file, as in the parser's tests: a mode line and \<^verbatim>\<open>/dev/null\<close> as old path.\<close>

definition example_added :: string where
  "example_added =
     ''diff --git a/x.txt b/x.txt'' @ [LF] @
     ''new file mode 100644'' @ [LF] @
     ''--- /dev/null'' @ [LF] @
     ''+++ b/x.txt''"


text \<open>
  One inserted line between two unchanged ones: \<^verbatim>\<open>@@ -1,2 +1,3 @@\<close> with the lines
  \<^verbatim>\<open> a\<close>, \<^verbatim>\<open>+x\<close>, \<^verbatim>\<open> b\<close>, as the parser numbers them.
\<close>

definition example_insert_file :: "nat DiffFile" where
  "example_insert_file =
     \<lparr>oldPath = Some ''t.txt'', newPath = Some ''t.txt'', status = StatusModified,
      hunks = [\<lparr>header = ''@@ -1,2 +1,3 @@'', oldStart = 1, oldLines = 2, newStart = 1, newLines = 3,
                lines = [\<lparr>type = Context, content = ''a'', oldLineNumber = Some 1,
                          newLineNumber = Some 1\<rparr>,
                         \<lparr>type = Added, content = ''x'', oldLineNumber = None,
                          newLineNumber = Some 2\<rparr>,
                         \<lparr>type = Context, content = ''b'', oldLineNumber = Some 2,
                          newLineNumber = Some 3\<rparr>]\<rparr>]\<rparr>"

definition example_insert_rows :: "VisualRow list" where
  "example_insert_rows = fst (buildVisualRows example_insert_file None None)"


text \<open>
  A hunk header whose old start is \<open>2^53 + 1\<close> and whose new start is \<open>2^53\<close>, with two
  removed and two added lines.
\<close>

definition example_beyond :: string where
  "example_beyond =
     ''diff --git a/t.txt b/t.txt'' @ [LF] @
     ''@@ -9007199254740993,2 +9007199254740992,2 @@'' @ [LF] @
     ''-a'' @ [LF] @
     ''-b'' @ [LF] @
     ''+c'' @ [LF] @
     ''+d''"

definition example_beyond_hunk :: "jsnum DiffHunk" where
  "example_beyond_hunk = hd (hunks (hd (files (parseUnifiedDiff example_beyond))))"

text \<open>
  The added-file and the deleted-file diff of the parser's tests (the first with CRLF
  between its lines, as there), and the files that the parser makes of them.
\<close>

definition example_added_diff :: string where
  "example_added_diff =
     ''diff --git a/src/new.txt b/src/new.txt'' @ [CR, LF] @
     ''new file mode 100644'' @ [CR, LF] @
     ''--- /dev/null'' @ [CR, LF] @
     ''+++ b/src/new.txt'' @ [CR, LF] @
     ''@@ -0,0 +1,2 @@'' @ [CR, LF] @
     ''+first'' @ [CR, LF] @
     ''+second''"

definition example_added_file :: "nat DiffFile" where
  "example_added_file =
     \<lparr>oldPath = None, newPath = Some ''src/new.txt'', status = StatusAdded,
      hunks = [\<lparr>header = ''@@ -0,0 +1,2 @@'', oldStart = 0, oldLines = 0,
                newStart = 1, newLines = 2,
                lines = [\<lparr>type = Added, content = ''first'', oldLineNumber = None,
                          newLineNumber = Some 1\<rparr>,
                         \<lparr>type = Added, content = ''second'', oldLineNumber = None,
                          newLineNumber = Some 2\<rparr>]\<rparr>]\<rparr>"

definition example_deleted_diff :: string where
  "example_deleted_diff =
     ''diff --git a/src/old.txt b/src/old.txt'' @ [LF] @
     ''deleted file mode 100644'' @ [LF] @
     ''--- a/src/old.txt'' @ [LF] @
     ''+++ /dev/null'' @ [LF] @
     ''@@ -1 +0,0 @@'' @ [LF] @
     ''-old''"

definition example_deleted_file :: "nat DiffFile" where
  "example_deleted_file =
     \<lparr>oldPath = Some ''src/old.txt'', newPath = None, status = StatusDeleted,
      hunks = [\<lparr>header = ''@@ -1 +0,0 @@'', oldStart = 1, oldLines = 1,
                newStart = 0, newLines = 0,
                lines = [\<lparr>type = Removed, content = ''old'', oldLineNumber = Some 1,
                          newLineNumber = None\<rparr>]\<rparr>]\<rparr>"

text \<open>
  Two inserted lines between two unchanged ones: \<^verbatim>\<open>@@ -1,2 +1,4 @@\<close> with the lines
  \<^verbatim>\<open> a\<close>, \<^verbatim>\<open>+x\<close>, \<^verbatim>\<open>+y\<close>, \<^verbatim>\<open> b\<close>, as the parser numbers them.
\<close>

definition example_run_file :: "nat DiffFile" where
  "example_run_file =
     \<lparr>oldPath = Some ''t.txt'', newPath = Some ''t.txt'', status = StatusModified,
      hunks = [\<lparr>header = ''@@ -1,2 +1,4 @@'', oldStart = 1, oldLines = 2, newStart = 1, newLines = 4,
                lines = [\<lparr>type = Context, content = ''a'', oldLineNumber = Some 1,
                          newLineNumber = Some 1\<rparr>,
                         \<lparr>type = Added, content = ''x'', oldLineNumber = None,
                          newLineNumber = Some 2\<rparr>,
                         \<lparr>type = Added, content = ''y'', oldLineNumber = None,
                          newLineNumber = Some 3\<rparr>,
                         \<lparr>type = Context, content = ''b'', oldLineNumber = Some 2,
                          newLineNumber = Some 4\<rparr>]\<rparr>]\<rparr>"

text \<open>
  Two hunks without lines whose new sides go backwards, \<^verbatim>\<open>@@ -1,0 +3,0 @@\<close> and then
  \<^verbatim>\<open>@@ -1,0 +1,0 @@\<close>, as the parser makes them.
\<close>

definition example_backwards_diff :: string where
  "example_backwards_diff =
     ''diff --git a/t.txt b/t.txt'' @ [LF] @
     ''@@ -1,0 +3,0 @@'' @ [LF] @
     ''@@ -1,0 +1,0 @@''"

definition example_backwards_file :: "nat DiffFile" where
  "example_backwards_file =
     \<lparr>oldPath = Some ''t.txt'', newPath = Some ''t.txt'', status = StatusModified,
      hunks = [\<lparr>header = ''@@ -1,0 +3,0 @@'', oldStart = 1, oldLines = 0, newStart = 3,
                newLines = 0, lines = []\<rparr>,
               \<lparr>header = ''@@ -1,0 +1,0 @@'', oldStart = 1, oldLines = 0, newStart = 1,
                newLines = 0, lines = []\<rparr>]\<rparr>"

text \<open>Its rows: the row before the two added rows, these two, and the row after them.\<close>

definition example_run_before :: "VisualRow list" where
  "example_run_before =
     [\<lparr>rowId = ''context-0-0'',
       left = LCell LContext \<lparr>type = Context, content = ''a'', oldLineNumber = Some 1,
                newLineNumber = Some 1\<rparr>,
       right = RCell RContext \<lparr>type = Context, content = ''a'', oldLineNumber = Some 1,
                 newLineNumber = Some 1\<rparr> None\<rparr>]"

definition example_run_added :: "VisualRow list" where
  "example_run_added =
     [\<lparr>rowId = ''added-0-1'', left = LSpacer,
       right = RCell RAdded \<lparr>type = Added, content = ''x'', oldLineNumber = None,
                 newLineNumber = Some 2\<rparr> (Some 1)\<rparr>,
      \<lparr>rowId = ''added-0-2'', left = LSpacer,
       right = RCell RAdded \<lparr>type = Added, content = ''y'', oldLineNumber = None,
                 newLineNumber = Some 3\<rparr> (Some 1)\<rparr>]"

definition example_run_after :: "VisualRow list" where
  "example_run_after =
     [\<lparr>rowId = ''context-0-3'',
       left = LCell LContext \<lparr>type = Context, content = ''b'', oldLineNumber = Some 2,
                newLineNumber = Some 4\<rparr>,
       right = RCell RContext \<lparr>type = Context, content = ''b'', oldLineNumber = Some 2,
                 newLineNumber = Some 4\<rparr> None\<rparr>]"

section \<open>Decimal numerals\<close>

lemma digit_value_char: "d < 10 \<Longrightarrow> digit_value (digit_char d) = d"
  by (simp add: digit_value_def digit_char_def)

lemma decimal_snoc: "decimal_value (ds @ [c]) = 10 * decimal_value ds + digit_value c"
  by (simp add: decimal_value_def)

lemma decimal_show_nat: "decimal_value (show_nat n) = n"
proof (induction n rule: show_nat.induct)
  case (1 n)
  show ?case
  proof (cases "n < 10")
    case True
    then show ?thesis
      by (subst show_nat.simps) (simp add: decimal_value_def digit_value_char)
  next
    case False
    with 1 have "decimal_value (show_nat (n div 10)) = n div 10" by simp
    with False show ?thesis
      by (subst show_nat.simps) (simp add: decimal_snoc digit_value_char)
  qed
qed

lemma digit_char_digit: "d < 10 \<Longrightarrow> is_digit (digit_char d)"
proof -
  assume d: "d < 10"
  have m: "map digit_char [0..<10] = ''0123456789''" by code_simp
  from d have "digit_char d \<in> set (map digit_char [0..<10])" by simp
  then show ?thesis unfolding m is_digit_def .
qed

lemma show_nat_digits: "c \<in> set (show_nat n) \<Longrightarrow> is_digit c"
proof (induction n rule: show_nat.induct)
  case (1 n)
  show ?case
  proof (cases "n < 10")
    case True
    with "1.prems" show ?thesis
      by (subst (asm) show_nat.simps) (simp add: digit_char_digit)
  next
    case False
    with "1.prems" "1.IH" show ?thesis
      by (subst (asm) show_nat.simps) (auto simp: digit_char_digit)
  qed
qed

lemma show_nat_nonempty: "show_nat n \<noteq> []"
  by (subst show_nat.simps) simp

lemma show_nat_Cons: "show_nat n @ xs = c # ys \<Longrightarrow> is_digit c"
  using show_nat_nonempty [of n] show_nat_digits [of c n]
  by (cases "show_nat n") auto

lemma split_at_dash:
  assumes "\<forall>c \<in> set a. is_digit c" and "\<forall>c \<in> set a'. is_digit c"
    and "a @ CHR ''-'' # r = a' @ CHR ''-'' # r'"
  shows "a = a' \<and> r = r'"
  using assms
proof (induction a arbitrary: a')
  case Nil
  then show ?case by (cases a') (auto simp: is_digit_def)
next
  case (Cons x a)
  then show ?case by (cases a') (auto simp: is_digit_def)
qed

lemma show_nat_pair:
  "show_nat h @ CHR ''-'' # show_nat i = show_nat h' @ CHR ''-'' # show_nat i'
     \<Longrightarrow> h = h' \<and> i = i'"
  using split_at_dash [of "show_nat h" "show_nat h'" "show_nat i" "show_nat i'"]
    show_nat_digits decimal_show_nat
  by metis

lemma show_nat_inj: "show_nat m = show_nat n \<Longrightarrow> m = n"
  by (metis decimal_show_nat)

lemma not_digit_f: "\<not> is_digit CHR ''f''"
  by (simp add: is_digit_def)

section \<open>Status inference of the parser\<close>

lemma section_bodies_snoc: "section_bodies (xs @ [l]) = section_step (section_bodies xs) l"
  by (simp add: section_bodies_def)

lemma explicit_status_snoc: "explicit_status (body @ [l]) = mode_step (explicit_status body) l"
  by (simp add: explicit_status_def)

lemma push_line_files:
  "\<exists>f'. p_files (push_line i j dl s) = (p_files s)[i := f']
        \<and> (i < length (p_files s) \<longrightarrow> status f' = status (p_files s ! i))"
  by (rule exI [of _ "(p_files s ! i)\<lparr>hunks := (hunks (p_files s ! i))
        [j := (hunks (p_files s ! i) ! j)\<lparr>lines := lines (hunks (p_files s ! i) ! j) @ [dl]\<rparr>]\<rparr>"])
     (simp add: push_line_def update_hunk_def update_file_def)

lemma hunk_line_files:
  "\<exists>f'. p_files (hunk_line s i j l) = (p_files s)[i := f']
        \<and> (i < length (p_files s) \<longrightarrow> status f' = status (p_files s ! i))"
proof -
  have same: "\<exists>f'. p_files s = (p_files s)[i := f']
        \<and> (i < length (p_files s) \<longrightarrow> status f' = status (p_files s ! i))"
    by (rule exI [of _ "p_files s ! i"]) simp
  show ?thesis
    unfolding hunk_line_def
    using same push_line_files by (auto)
qed

lemma start_hunk_files:
  "\<exists>f'. p_files (start_hunk s i l g1 g2 g3 g4) = (p_files s)[i := f']
        \<and> (i < length (p_files s) \<longrightarrow> status f' = status (p_files s ! i))"
  unfolding start_hunk_def Let_def update_file_def
  by (simp, intro exI conjI, rule refl) simp

lemma file_line_files:
  "\<exists>f'. p_files (file_line s i l) = (p_files s)[i := f']
        \<and> (i < length (p_files s) \<longrightarrow> status f' = mode_step (status (p_files s ! i)) l)"
proof -
  have same: "\<exists>f'. p_files s = (p_files s)[i := f']
        \<and> (i < length (p_files s) \<longrightarrow> status f' = status (p_files s ! i))"
    by (rule exI [of _ "p_files s ! i"]) simp
  consider (a) "prefix ''new file mode'' l"
    | (d) "\<not> prefix ''new file mode'' l" "prefix ''deleted file mode'' l"
    | (o) "\<not> prefix ''new file mode'' l" "\<not> prefix ''deleted file mode'' l" "prefix ''--- '' l"
    | (n) "\<not> prefix ''new file mode'' l" "\<not> prefix ''deleted file mode'' l" "\<not> prefix ''--- '' l"
          "prefix ''+++ '' l"
    | (r) "\<not> prefix ''new file mode'' l" "\<not> prefix ''deleted file mode'' l" "\<not> prefix ''--- '' l"
          "\<not> prefix ''+++ '' l"
    by blast
  then show ?thesis
  proof cases
    case a
    then show ?thesis
      by (intro exI [of _ "(p_files s ! i)\<lparr>status := StatusAdded\<rparr>"])
         (simp add: file_line_def update_file_def mode_step_def)
  next
    case d
    then show ?thesis
      by (intro exI [of _ "(p_files s ! i)\<lparr>status := StatusDeleted\<rparr>"])
         (simp add: file_line_def update_file_def mode_step_def)
  next
    case o
    then show ?thesis
      by (intro exI [of _ "(p_files s ! i)\<lparr>oldPath := parse_path ''a/'' l\<rparr>"])
         (simp add: file_line_def update_file_def mode_step_def)
  next
    case n
    then show ?thesis
      by (intro exI [of _ "(p_files s ! i)\<lparr>newPath := parse_path ''b/'' l\<rparr>"])
         (simp add: file_line_def update_file_def mode_step_def)
  next
    case r
    then have m: "mode_step (status (p_files s ! i)) l = status (p_files s ! i)"
      by (simp add: mode_step_def)
    from r have fl: "file_line s i l = (case match_hunk_header l of
           Some (g1, g2, g3, g4) \<Rightarrow> start_hunk s i l g1 g2 g3 g4
         | None \<Rightarrow> (case currentHunk s of None \<Rightarrow> s | Some j \<Rightarrow> hunk_line s i j l))"
      by (simp add: file_line_def)
    show ?thesis
      unfolding fl m
      using same start_hunk_files hunk_line_files
      by (auto split: option.splits prod.splits)
  qed
qed

lemma file_line_currentFile: "currentFile (file_line s i l) = currentFile s"
  by (auto simp: file_line_def update_file_def start_hunk_def hunk_line_def Let_def
        push_line_def update_hunk_def split: option.splits prod.splits)


lemma ensureStatus_paths [simp]:
  "only_new (ensureStatus f) = only_new f" "only_old (ensureStatus f) = only_old f"
  by (auto simp: ensureStatus_def only_new_def only_old_def)

lemma ensureStatus_other:
  "\<not> only_new f \<Longrightarrow> \<not> only_old f \<Longrightarrow> ensureStatus f = f"
  by (auto simp: ensureStatus_def only_new_def only_old_def)

lemma ensureStatus_status:
  "only_new f \<Longrightarrow> status (ensureStatus f) = StatusAdded"
  "only_old f \<Longrightarrow> status (ensureStatus f) = StatusDeleted"
  by (auto simp: ensureStatus_def only_new_def only_old_def)

lemma sections_ok_header:
  assumes inv: "sections_ok s xs" and h: "match_diff_header l = Some (g1, g2)"
  shows "sections_ok (start_file s g1 g2) (xs @ [l])"
proof -
  let ?n = "length (p_files s)"
  let ?new = "\<lparr>oldPath = Some g1, newPath = Some g2, status = StatusModified, hunks = []\<rparr>"
  let ?F1 = "(p_files s)[?n - 1 := ensureStatus (p_files s ! (?n - 1))]"
  from inv have len: "?n = length (section_bodies xs)"
    and cur: "currentFile s = (if p_files s = [] then None else Some (?n - 1))"
    and lst: "p_files s \<noteq> [] \<Longrightarrow> status (last (p_files s)) = explicit_status (last (section_bodies xs))"
    and closed: "\<And>k. k + 1 < ?n \<Longrightarrow> \<not> only_new (p_files s ! k) \<Longrightarrow> \<not> only_old (p_files s ! k)
                  \<Longrightarrow> status (p_files s ! k) = explicit_status (section_bodies xs ! k)"
    by (simp_all add: sections_ok_def)
  have files: "p_files (start_file s g1 g2) = ?F1 @ [?new]"
    and cf: "currentFile (start_file s g1 g2) = Some (length ?F1)"
    using cur by (auto simp: start_file_def Let_def update_file_def)
  have lenF: "length ?F1 = ?n" by simp
  have bodies: "section_bodies (xs @ [l]) = section_bodies xs @ [[]]"
    using h by (simp add: section_bodies_snoc section_step_def is_file_header_def)
  have cl: "\<not> only_new (?F1 ! k) \<and> \<not> only_old (?F1 ! k)
             \<longrightarrow> status (?F1 ! k) = explicit_status (section_bodies xs ! k)"
    if k: "k < ?n" for k
  proof (cases "k = ?n - 1")
    case True
    with k have ne: "p_files s \<noteq> []" by auto
    with True k have F: "?F1 ! k = ensureStatus (p_files s ! k)" by simp
    from ne True have "last (p_files s) = p_files s ! k" by (simp add: last_conv_nth)
    moreover from ne len True have "last (section_bodies xs) = section_bodies xs ! k"
      by (metis last_conv_nth length_0_conv)
    ultimately have "status (p_files s ! k) = explicit_status (section_bodies xs ! k)"
      using lst [OF ne] by simp
    then show ?thesis unfolding F by (auto simp: ensureStatus_other)
  next
    case False
    with k have "k + 1 < ?n" by arith
    moreover from False have "?F1 ! k = p_files s ! k" by simp
    ultimately show ?thesis using closed [of k] by simp
  qed
  show ?thesis
    unfolding sections_ok_def files cf bodies
    using len lenF cl by (auto simp: nth_append explicit_status_def simp del: length_list_update)
qed


lemma sections_ok_body:
  assumes inv: "sections_ok s xs" and h: "match_diff_header l = None"
  shows "sections_ok (parse_line s l) (xs @ [l])"
proof (cases "p_files s = []")
  case True
  with inv have "currentFile s = None" "section_bodies xs = []"
    by (simp_all add: sections_ok_def)
  with inv h True show ?thesis
    by (simp add: parse_line_def sections_ok_def section_bodies_snoc section_step_def
          is_file_header_def)
next
  case False
  let ?n = "length (p_files s)"
  let ?i = "?n - 1"
  let ?B = "section_bodies xs"
  from inv False have len: "?n = length ?B"
    and cur: "currentFile s = Some ?i"
    and lst: "status (last (p_files s)) = explicit_status (last ?B)"
    and closed: "\<And>k. k + 1 < ?n \<Longrightarrow> \<not> only_new (p_files s ! k) \<Longrightarrow> \<not> only_old (p_files s ! k)
                  \<Longrightarrow> status (p_files s ! k) = explicit_status (?B ! k)"
    by (simp_all add: sections_ok_def)
  from False len have Bne: "?B \<noteq> []" by auto
  from False have i: "?i < ?n" by simp
  have pl: "parse_line s l = file_line s ?i l" using h cur by (simp add: parse_line_def)
  obtain f' where files: "p_files (file_line s ?i l) = (p_files s)[?i := f']"
    and st: "status f' = mode_step (status (p_files s ! ?i)) l"
    using file_line_files [of s ?i l] i by blast
  have bodies: "section_bodies (xs @ [l]) = butlast ?B @ [last ?B @ [l]]"
    using h Bne by (simp add: section_bodies_snoc section_step_def is_file_header_def)
  have lenB: "length (butlast ?B @ [last ?B @ [l]]) = ?n" using Bne len by simp
  have lastF: "last ((p_files s)[?i := f']) = f'"
    using False by (simp add: last_list_update)
  have "status (p_files s ! ?i) = explicit_status (last ?B)"
    using lst False by (simp add: last_conv_nth)
  with st have st': "status f' = explicit_status (last ?B @ [l])"
    by (simp add: explicit_status_snoc)
  have cl: "\<not> only_new ((p_files s)[?i := f'] ! k) \<and> \<not> only_old ((p_files s)[?i := f'] ! k)
             \<longrightarrow> status ((p_files s)[?i := f'] ! k) = explicit_status ((butlast ?B @ [last ?B @ [l]]) ! k)"
    if k: "k + 1 < ?n" for k
  proof -
    from k have ne: "k \<noteq> ?i" by arith
    from k len have "k < length (butlast ?B)" by simp
    then have "(butlast ?B @ [last ?B @ [l]]) ! k = ?B ! k"
      by (simp add: nth_append nth_butlast)
    with ne closed [OF k] show ?thesis by simp
  qed
  show ?thesis
    unfolding pl sections_ok_def files bodies lastF
    using lenB cur cl st' False by (simp add: file_line_currentFile)
qed

lemma sections_ok_step: "sections_ok s xs \<Longrightarrow> sections_ok (parse_line s l) (xs @ [l])"
proof (cases "match_diff_header l")
  case None
  assume "sections_ok s xs"
  then show ?thesis using None by (rule sections_ok_body)
next
  case (Some g)
  assume inv: "sections_ok s xs"
  obtain g1 g2 where g: "g = (g1, g2)" by (cases g)
  with Some have "parse_line s l = start_file s g1 g2" by (simp add: parse_line_def)
  with sections_ok_header [OF inv] Some g show ?thesis by simp
qed

lemma sections_ok_foldl: "sections_ok (foldl parse_line parser_init xs) xs"
proof (induction xs rule: rev_induct)
  case Nil
  show ?case by (simp add: sections_ok_def parser_init_def section_bodies_def)
next
  case (snoc l xs)
  then show ?case by (simp add: sections_ok_step)
qed

text \<open>
  Claim C4. For every input, the parsed files correspond one to one to the sections of the
  input, and for every parsed file: if \<open>oldPath\<close> is null and \<open>newPath\<close> is not, the status
  is "added"; if \<open>newPath\<close> is null and \<open>oldPath\<close> is not, the status is "deleted";
  otherwise the status is "modified" unless a \<^verbatim>\<open>new file mode\<close> or
  \<^verbatim>\<open>deleted file mode\<close> line of the file's section set it, and then it is what the last
  such line set (\<open>status_inferred\<close>).
\<close>

theorem status_inference:
  "length (files (parseUnifiedDiff rawDiff))
     = length (section_bodies (split_lines (normalizeLineEndings rawDiff)))
   \<and> (\<forall>k < length (files (parseUnifiedDiff rawDiff)).
         status_inferred (files (parseUnifiedDiff rawDiff) ! k)
           (section_bodies (split_lines (normalizeLineEndings rawDiff)) ! k))"
proof -
  let ?xs = "split_lines (normalizeLineEndings rawDiff)"
  let ?s = "foldl parse_line parser_init ?xs"
  have inv: "sections_ok ?s ?xs" by (rule sections_ok_foldl)
  have fs: "files (parseUnifiedDiff rawDiff) = map ensureStatus (p_files ?s)"
    by (simp add: parseUnifiedDiff_def Let_def)
  from inv have len: "length (p_files ?s) = length (section_bodies ?xs)"
    by (simp add: sections_ok_def)
  have "status_inferred (ensureStatus (p_files ?s ! k)) (section_bodies ?xs ! k)"
    if k: "k < length (p_files ?s)" for k
  proof -
    let ?f = "p_files ?s ! k"
    have other: "status ?f = explicit_status (section_bodies ?xs ! k)"
      if o: "\<not> only_new ?f" "\<not> only_old ?f"
    proof (cases "k + 1 < length (p_files ?s)")
      case True
      with inv o show ?thesis by (simp add: sections_ok_def)
    next
      case False
      with k have e: "k = length (p_files ?s) - 1" and ne: "p_files ?s \<noteq> []" by auto
      from ne len have "section_bodies ?xs \<noteq> []" by auto
      with inv ne e len show ?thesis
        by (simp add: sections_ok_def last_conv_nth)
    qed
    show ?thesis
      unfolding status_inferred_def
      using other by (auto simp: ensureStatus_status ensureStatus_other)
  qed
  then show ?thesis unfolding fs using len by simp
qed

theorem status_inference_witness:
  "files (parseUnifiedDiff example_added)
     = [\<lparr>oldPath = None, newPath = Some ''x.txt'', status = StatusAdded, hunks = []\<rparr>]
   \<and> section_bodies (split_lines (normalizeLineEndings example_added))
     = [[''new file mode 100644'', ''--- /dev/null'', ''+++ b/x.txt'']]
   \<and> status_inferred
        \<lparr>oldPath = None, newPath = Some ''x.txt'', status = StatusAdded,
         hunks = ([] :: jsnum DiffHunk list)\<rparr>
        [''new file mode 100644'', ''--- /dev/null'', ''+++ b/x.txt'']"
proof -
  have e: "files (parseUnifiedDiff example_added)
     = [\<lparr>oldPath = None, newPath = Some ''x.txt'', status = StatusAdded, hunks = []\<rparr>]"
    by code_simp
  have b: "section_bodies (split_lines (normalizeLineEndings example_added))
     = [[''new file mode 100644'', ''--- /dev/null'', ''+++ b/x.txt'']]"
    by code_simp
  from status_inference [of example_added] e b show ?thesis by simp
qed

section \<open>The line-number invariant of the parser\<close>

lemma round_double_exact: "v < 9007199254740992 \<Longrightarrow> round_double v = Num v"
  by (simp add: round_double_def)

lemma js_plus_plus: "js_plus (js_plus x a) b = js_plus x (a + b)"
  by (cases x) (simp_all add: js_plus_def)

lemma below_limit_less: "below_limit (js_plus x (a + b)) \<Longrightarrow> below_limit (js_plus x a)"
  by (cases x) (simp_all add: js_plus_def below_limit_def)

lemma js_succ_exact: "below_limit (js_plus x 1) \<Longrightarrow> js_succ x = js_plus x 1"
  by (cases x) (simp_all add: js_plus_def below_limit_def js_succ_def round_double_exact)

lemma counter_snoc_le:
  "k \<le> length (lines h) \<Longrightarrow> old_counter (h\<lparr>lines := lines h @ [dl]\<rparr>) k = old_counter h k"
  "k \<le> length (lines h) \<Longrightarrow> new_counter (h\<lparr>lines := lines h @ [dl]\<rparr>) k = new_counter h k"
  by (simp_all add: old_counter_def new_counter_def)

lemma hunk_numbered_snoc:
  assumes "hunk_numbered h"
    and "line_numbered (h\<lparr>lines := lines h @ [dl]\<rparr>) (length (lines h))"
  shows "hunk_numbered (h\<lparr>lines := lines h @ [dl]\<rparr>)"
  unfolding hunk_numbered_def
proof (intro allI impI)
  fix k assume "k < length (lines (h\<lparr>lines := lines h @ [dl]\<rparr>))"
  then consider "k < length (lines h)" | "k = length (lines h)" by fastforce
  then show "line_numbered (h\<lparr>lines := lines h @ [dl]\<rparr>) k"
  proof cases
    case 1
    with assms(1) have "line_numbered h k" by (simp add: hunk_numbered_def)
    with 1 show ?thesis
      by (simp add: line_numbered_def old_numbered_def new_numbered_def counter_snoc_le
            nth_append)
  next
    case 2
    with assms(2) show ?thesis by simp
  qed
qed

lemma counters_snoc:
  "old_counter (h\<lparr>lines := lines h @ [dl]\<rparr>) (Suc (length (lines h)))
     = js_plus (old_counter h (length (lines h))) (if on_old dl then 1 else 0)"
  "new_counter (h\<lparr>lines := lines h @ [dl]\<rparr>) (Suc (length (lines h)))
     = js_plus (new_counter h (length (lines h))) (if on_new dl then 1 else 0)"
  "old_counter (h\<lparr>lines := lines h @ [dl]\<rparr>) (length (lines h)) = old_counter h (length (lines h))"
  "new_counter (h\<lparr>lines := lines h @ [dl]\<rparr>) (length (lines h)) = new_counter h (length (lines h))"
  by (simp_all add: old_counter_def new_counter_def js_plus_plus)

lemma js_plus_zero [simp]: "js_plus x 0 = x"
  by (cases x) (simp_all add: js_plus_def)

lemma counter_step:
  assumes "below_limit c \<longrightarrow> cur = c"
    and "below_limit (js_plus c (if p then 1 else 0))"
  shows "(if p then js_succ cur else cur) = js_plus c (if p then 1 else 0)"
proof (cases p)
  case True
  with assms(2) have b: "below_limit (js_plus c 1)" by simp
  from below_limit_less [of c 0 1] b have "below_limit c" by simp
  with assms(1) have "cur = c" by simp
  with True js_succ_exact [OF b] show ?thesis by simp
next
  case False
  with assms show ?thesis by simp
qed

text \<open>Pushing a line that carries the current counters keeps the invariant.\<close>

lemma push_line_counters:
  assumes inv: "counters_ok s"
    and cur: "currentFile s = Some i" "currentHunk s = Some j"
    and dl: "oldLineNumber dl = (if on_old dl then Some (oldLine s) else None)"
            "newLineNumber dl = (if on_new dl then Some (newLine s) else None)"
  shows "counters_ok ((push_line i j dl s)
           \<lparr>oldLine := (if on_old dl then js_succ (oldLine s) else oldLine s),
            newLine := (if on_new dl then js_succ (newLine s) else newLine s)\<rparr>)"
proof (cases "i < length (p_files s) \<and> j < length (hunks (p_files s ! i))")
  case False
  then have same: "p_files (push_line i j dl s) = p_files s"
    by (auto simp: push_line_def update_hunk_def update_file_def list_update_beyond)
  have c: "currentFile (push_line i j dl s) = Some i" "currentHunk (push_line i j dl s) = Some j"
    using cur by (simp_all add: push_line_def update_hunk_def update_file_def)
  from inv False same c show ?thesis
    by (auto simp: counters_ok_def)
next
  case True
  let ?f = "p_files s ! i"
  let ?h = "hunks ?f ! j"
  let ?h' = "?h\<lparr>lines := lines ?h @ [dl]\<rparr>"
  let ?f' = "?f\<lparr>hunks := (hunks ?f)[j := ?h']\<rparr>"
  have files: "p_files (push_line i j dl s) = (p_files s)[i := ?f']"
    by (simp add: push_line_def update_hunk_def update_file_def)
  have c: "currentFile (push_line i j dl s) = Some i" "currentHunk (push_line i j dl s) = Some j"
    using cur by (simp_all add: push_line_def update_hunk_def update_file_def)
  from True have fin: "?f \<in> set (p_files s)" and hin: "?h \<in> set (hunks ?f)" by simp_all
  with inv have hn: "hunk_numbered ?h" by (auto simp: counters_ok_def)
  from inv cur True have ctr:
      "below_limit (old_counter ?h (length (lines ?h)))
         \<longrightarrow> oldLine s = old_counter ?h (length (lines ?h))"
      "below_limit (new_counter ?h (length (lines ?h)))
         \<longrightarrow> newLine s = new_counter ?h (length (lines ?h))"
    by (simp_all add: counters_ok_def)
  have ln: "line_numbered ?h' (length (lines ?h))"
    using dl ctr
    by (simp add: line_numbered_def line_sides_def old_numbered_def new_numbered_def
          counters_snoc)
  have hn': "hunk_numbered ?h'" by (rule hunk_numbered_snoc [OF hn ln])
  have all: "\<forall>f \<in> set ((p_files s)[i := ?f']). \<forall>h \<in> set (hunks f). hunk_numbered h"
  proof (intro ballI)
    fix f h assume f: "f \<in> set ((p_files s)[i := ?f'])" and h: "h \<in> set (hunks f)"
    from f have "f = ?f' \<or> f \<in> set (p_files s)"
      using set_update_subset_insert [of "p_files s" i ?f'] by auto
    then show "hunk_numbered h"
    proof
      assume "f = ?f'"
      with h have "h = ?h' \<or> h \<in> set (hunks ?f)"
        using set_update_subset_insert [of "hunks ?f" j ?h'] by auto
      with hn' inv fin show ?thesis by (auto simp: counters_ok_def)
    next
      assume "f \<in> set (p_files s)"
      with inv h show ?thesis by (auto simp: counters_ok_def)
    qed
  qed
  have old: "(if on_old dl then js_succ (oldLine s) else oldLine s)
      = old_counter ?h' (Suc (length (lines ?h)))"
    if "below_limit (old_counter ?h' (Suc (length (lines ?h))))"
    using counter_step [OF ctr(1), of "on_old dl"] that by (simp add: counters_snoc)
  have new: "(if on_new dl then js_succ (newLine s) else newLine s)
      = new_counter ?h' (Suc (length (lines ?h)))"
    if "below_limit (new_counter ?h' (Suc (length (lines ?h))))"
    using counter_step [OF ctr(2), of "on_new dl"] that by (simp add: counters_snoc)
  show ?thesis
    unfolding counters_ok_def
    using all True c old new by (simp add: files)
qed


lemma push_line_fields [simp]:
  "oldLine (push_line i j dl s) = oldLine s"
  "newLine (push_line i j dl s) = newLine s"
  "currentFile (push_line i j dl s) = currentFile s"
  "currentHunk (push_line i j dl s) = currentHunk s"
  by (simp_all add: push_line_def update_hunk_def update_file_def)

lemma parser_update_same:
  "oldLine r = v \<Longrightarrow> r\<lparr>oldLine := v, newLine := w\<rparr> = r\<lparr>newLine := w\<rparr>"
  "newLine r = w \<Longrightarrow> r\<lparr>oldLine := v, newLine := w\<rparr> = r\<lparr>oldLine := v\<rparr>"
  by (cases r, simp)+

lemma hunk_line_counters:
  assumes "counters_ok s" and "currentFile s = Some i" and "currentHunk s = Some j"
  shows "counters_ok (hunk_line s i j line)"
proof -
  have a: "counters_ok ((push_line i j
        \<lparr>type = Added, content = drop 1 line, oldLineNumber = None, newLineNumber = Some (newLine s)\<rparr> s)
        \<lparr>newLine := js_succ (newLine s)\<rparr>)"
    using push_line_counters [OF assms, of "\<lparr>type = Added, content = drop 1 line,
          oldLineNumber = None, newLineNumber = Some (newLine s)\<rparr>"]
    by (simp add: on_old_def on_new_def parser_update_same)
  have r: "counters_ok ((push_line i j
        \<lparr>type = Removed, content = drop 1 line, oldLineNumber = Some (oldLine s), newLineNumber = None\<rparr> s)
        \<lparr>oldLine := js_succ (oldLine s)\<rparr>)"
    using push_line_counters [OF assms, of "\<lparr>type = Removed, content = drop 1 line,
          oldLineNumber = Some (oldLine s), newLineNumber = None\<rparr>"]
    by (simp add: on_old_def on_new_def parser_update_same)
  have c: "counters_ok ((push_line i j
        \<lparr>type = Context, content = drop 1 line, oldLineNumber = Some (oldLine s),
         newLineNumber = Some (newLine s)\<rparr> s)
        \<lparr>oldLine := js_succ (oldLine s), newLine := js_succ (newLine s)\<rparr>)"
    using push_line_counters [OF assms, of "\<lparr>type = Context, content = drop 1 line,
          oldLineNumber = Some (oldLine s), newLineNumber = Some (newLine s)\<rparr>"]
    by (simp add: on_old_def on_new_def)
  from a r c assms(1) show ?thesis by (simp add: hunk_line_def)
qed

lemma counters_ok_cong:
  assumes "map hunks (p_files s') = map hunks (p_files s)"
    and "currentFile s' = currentFile s" "currentHunk s' = currentHunk s"
    and "oldLine s' = oldLine s" "newLine s' = newLine s"
  shows "counters_ok s' = counters_ok s"
proof -
  from assms(1) have len: "length (p_files s') = length (p_files s)"
    by (metis length_map)
  have nth: "\<And>i. i < length (p_files s) \<Longrightarrow> hunks (p_files s' ! i) = hunks (p_files s ! i)"
    using assms(1) len by (metis nth_map)
  have sets: "(\<forall>f \<in> set (p_files s'). \<forall>h \<in> set (hunks f). hunk_numbered h)
            = (\<forall>f \<in> set (p_files s). \<forall>h \<in> set (hunks f). hunk_numbered h)"
  proof -
    have "(\<forall>f \<in> set (p_files s'). \<forall>h \<in> set (hunks f). hunk_numbered h)
        = (\<forall>hs \<in> set (map hunks (p_files s')). \<forall>h \<in> set hs. hunk_numbered h)" by simp
    also have "\<dots> = (\<forall>hs \<in> set (map hunks (p_files s)). \<forall>h \<in> set hs. hunk_numbered h)"
      by (simp only: assms(1))
    also have "\<dots> = (\<forall>f \<in> set (p_files s). \<forall>h \<in> set (hunks f). hunk_numbered h)" by simp
    finally show ?thesis .
  qed
  show ?thesis
    unfolding counters_ok_def sets assms(2-5) len
    using nth by auto
qed

lemma update_file_counters:
  assumes "\<And>f. hunks (g f) = hunks f"
  shows "counters_ok (update_file i g s) = counters_ok s"
proof (rule counters_ok_cong)
  show "map hunks (p_files (update_file i g s)) = map hunks (p_files s)"
    by (simp add: update_file_def map_update assms list_update_same_conv)
       (metis list_update_beyond list_update_id map_update nth_map not_le_imp_less length_map)
qed (simp_all add: update_file_def)


lemma hunk_numbered_empty: "lines h = [] \<Longrightarrow> hunk_numbered h"
  by (simp add: hunk_numbered_def)

lemma start_hunk_counters:
  assumes inv: "counters_ok s" and cur: "currentFile s = Some i"
  shows "counters_ok (start_hunk s i line g1 g2 g3 g4)"
proof -
  define hunk where "hunk = \<lparr>header = line, oldStart = Number g1,
      oldLines = (case g2 of None \<Rightarrow> Num 1 | Some d \<Rightarrow> Number d), newStart = Number g3,
      newLines = (case g4 of None \<Rightarrow> Num 1 | Some d \<Rightarrow> Number d), lines = []\<rparr>"
  let ?f = "p_files s ! i"
  let ?f' = "?f\<lparr>hunks := hunks ?f @ [hunk]\<rparr>"
  let ?s' = "start_hunk s i line g1 g2 g3 g4"
  have files: "p_files ?s' = (p_files s)[i := ?f']"
    and fields: "currentFile ?s' = Some i" "currentHunk ?s' = Some (length (hunks ?f))"
      "oldLine ?s' = oldStart hunk" "newLine ?s' = newStart hunk"
    using cur by (simp_all add: start_hunk_def Let_def update_file_def hunk_def)
  have hn: "hunk_numbered hunk" by (rule hunk_numbered_empty) (simp add: hunk_def)
  have all: "\<forall>f \<in> set ((p_files s)[i := ?f']). \<forall>h \<in> set (hunks f). hunk_numbered h"
  proof (intro ballI)
    fix f h assume f: "f \<in> set ((p_files s)[i := ?f'])" and h: "h \<in> set (hunks f)"
    from f have "f = ?f' \<or> f \<in> set (p_files s)"
      using set_update_subset_insert [of "p_files s" i ?f'] by auto
    then show "hunk_numbered h"
    proof
      assume eq: "f = ?f'"
      show ?thesis
      proof (cases "i < length (p_files s)")
        case True
        then have "?f \<in> set (p_files s)" by simp
        with inv eq h hn show ?thesis by (auto simp: counters_ok_def)
      next
        case False
        with f have "f \<in> set (p_files s)" by (simp add: list_update_beyond)
        with inv h show ?thesis by (auto simp: counters_ok_def)
      qed
    next
      assume "f \<in> set (p_files s)"
      with inv h show ?thesis by (auto simp: counters_ok_def)
    qed
  qed
  have ctr: "i < length (p_files s) \<Longrightarrow>
      old_counter (hunks ?f' ! length (hunks ?f)) (length (lines (hunks ?f' ! length (hunks ?f)))) = oldStart hunk
      \<and> new_counter (hunks ?f' ! length (hunks ?f)) (length (lines (hunks ?f' ! length (hunks ?f)))) = newStart hunk"
    by (simp add: old_counter_def new_counter_def hunk_def)
  show ?thesis
    unfolding counters_ok_def files fields
    using all ctr by auto
qed

lemma start_file_counters:
  assumes inv: "counters_ok s"
  shows "counters_ok (start_file s g1 g2)"
proof -
  let ?s1 = "case currentFile s of Some i \<Rightarrow> update_file i ensureStatus s | None \<Rightarrow> s"
  have s1: "counters_ok ?s1"
    using inv by (auto split: option.splits simp: update_file_counters ensureStatus_def)
  then show ?thesis
    unfolding start_file_def Let_def by (auto simp: counters_ok_def)
qed

lemma file_line_counters:
  assumes "counters_ok s" and "currentFile s = Some i"
  shows "counters_ok (file_line s i line)"
  unfolding file_line_def
  using assms
  by (auto split: option.splits simp: update_file_counters
        intro!: start_hunk_counters hunk_line_counters)

lemma parse_line_counters: "counters_ok s \<Longrightarrow> counters_ok (parse_line s line)"
  unfolding parse_line_def
  by (auto split: option.splits intro!: start_file_counters file_line_counters)

lemma foldl_parse_counters: "counters_ok s \<Longrightarrow> counters_ok (foldl parse_line s ls)"
  by (induction ls arbitrary: s) (auto intro: parse_line_counters)

text \<open>
  Claim C5, as amended. For every input and every line of every hunk of every parsed
  file: an added line carries no old line number, a removed line no new line number, a
  context line both; and the number carried on a side is the running counter of that
  side, which starts at the hunk's \<open>oldStart\<close> or \<open>newStart\<close> and grows by one with each
  earlier line of the hunk that is present on that side, whenever this counter is below
  \<open>2^53\<close> (\<open>line_numbered\<close>).
\<close>

theorem parsed_lines_numbered:
  "\<forall>f \<in> set (files (parseUnifiedDiff rawDiff)). \<forall>h \<in> set (hunks f).
     \<forall>k < length (lines h). line_numbered h k"
proof -
  have "counters_ok parser_init" by (simp add: counters_ok_def parser_init_def)
  then have "counters_ok (foldl parse_line parser_init (split_lines (normalizeLineEndings rawDiff)))"
    by (rule foldl_parse_counters)
  then show ?thesis
    by (auto simp: parseUnifiedDiff_def Let_def counters_ok_def hunk_numbered_def ensureStatus_def)
qed

theorem parsed_lines_numbered_witness:
  "files (parseUnifiedDiff example_modified) = [js_file example_file]
   \<and> hunks (js_file example_file) = [js_hunk example_hunk]
   \<and> length (lines (js_hunk example_hunk)) = 3
   \<and> below_limit (old_counter (js_hunk example_hunk) 2)
   \<and> below_limit (new_counter (js_hunk example_hunk) 2)
   \<and> exactly_numbered (js_hunk example_hunk) 0
   \<and> exactly_numbered (js_hunk example_hunk) 1
   \<and> exactly_numbered (js_hunk example_hunk) 2"
proof -
  let ?h = "js_hunk example_hunk"
  have e: "files (parseUnifiedDiff example_modified) = [js_file example_file]" by code_simp
  have h: "hunks (js_file example_file) = [?h]" by (simp add: js_file_def example_file_def)
  have n: "length (lines ?h) = 3" by (simp add: js_hunk_def example_hunk_def)
  have b: "below_limit (old_counter ?h 0)" "below_limit (new_counter ?h 0)"
      "below_limit (old_counter ?h 1)" "below_limit (new_counter ?h 1)"
      "below_limit (old_counter ?h 2)" "below_limit (new_counter ?h 2)"
    by code_simp+
  from parsed_lines_numbered [of example_modified] e h n
  have "line_numbered ?h 0" "line_numbered ?h 1" "line_numbered ?h 2" by simp_all
  with b have "exactly_numbered ?h 0" "exactly_numbered ?h 1" "exactly_numbered ?h 2"
    by (simp_all add: line_numbered_def exactly_numbered_def)
  with e h n b show ?thesis by simp
qed

text \<open>
  From \<open>2^53\<close> on the numbers are not the counters. The numeral \<open>2^53 + 1\<close> is read as
  \<open>2^53\<close>, and adding one to \<open>2^53\<close> gives \<open>2^53\<close> again: both removed lines are numbered
  \<open>2^53\<close>, and so are both added lines.
\<close>

theorem parsed_lines_numbered_counterexample:
  "files (parseUnifiedDiff example_beyond)
     = [\<lparr>oldPath = Some ''t.txt'', newPath = Some ''t.txt'', status = StatusModified,
         hunks = [example_beyond_hunk]\<rparr>]
   \<and> oldStart example_beyond_hunk = Num 9007199254740992
   \<and> map oldLineNumber (lines example_beyond_hunk)
       = [Some (Num 9007199254740992), Some (Num 9007199254740992), None, None]
   \<and> map newLineNumber (lines example_beyond_hunk)
       = [None, None, Some (Num 9007199254740992), Some (Num 9007199254740992)]
   \<and> old_counter example_beyond_hunk 1 = Num 9007199254740993
   \<and> new_counter example_beyond_hunk 3 = Num 9007199254740993
   \<and> \<not> exactly_numbered example_beyond_hunk 1
   \<and> \<not> exactly_numbered example_beyond_hunk 3"
  by code_simp

section \<open>Line endings\<close>

lemma CR_neq_LF [simp]: "CR \<noteq> LF" "LF \<noteq> CR"
  by (simp_all add: CR_def LF_def)

lemma lf_only_normalize: "lf_only s = normalizeLineEndings s"
  unfolding lf_only_def replace_bare_cr_def
  by (induction s rule: normalizeLineEndings.induct) auto

lemma normalize_no_CR: "CR \<notin> set (normalizeLineEndings s)"
  by (induction s rule: normalizeLineEndings.induct) auto

lemma normalize_id: "CR \<notin> set s \<Longrightarrow> normalizeLineEndings s = s"
  by (induction s rule: normalizeLineEndings.induct) auto

lemma normalize_idem: "normalizeLineEndings (normalizeLineEndings s) = normalizeLineEndings s"
  by (rule normalize_id) (rule normalize_no_CR)

lemma split_lines_chars: "l \<in> set (split_lines s) \<Longrightarrow> set l \<subseteq> set s"
proof (induction s arbitrary: l)
  case Nil
  then show ?case by simp
next
  case (Cons c cs)
  show ?case
  proof (cases "c = LF")
    case True
    with Cons show ?thesis by auto
  next
    case False
    show ?thesis
    proof (cases "split_lines cs")
      case Nil
      with False Cons.prems show ?thesis by simp
    next
      case (Cons a as)
      show ?thesis
      proof (cases "l = c # a")
        case True
        have "set a \<subseteq> set cs" using Cons.IH [of a] Cons by simp
        with True show ?thesis by auto
      next
        case ne: False
        with False Cons Cons.prems have "l \<in> set (split_lines cs)" by simp
        then have "set l \<subseteq> set cs" by (rule Cons.IH)
        then show ?thesis by auto
      qed
    qed
  qed
qed

lemma content_ok_files: "content_ok s = (\<forall>f \<in> set (p_files s). file_ok f)"
  by (simp add: content_ok_def file_ok_def)

lemma update_file_ok:
  assumes "content_ok s" and "\<And>f. file_ok f \<Longrightarrow> file_ok (g f)"
  shows "content_ok (update_file i g s)"
proof (cases "i < length (p_files s)")
  case True
  with assms(1) have "file_ok (p_files s ! i)" by (simp add: content_ok_files)
  then have "file_ok (g (p_files s ! i))" by (rule assms(2))
  with assms(1) show ?thesis
    using set_update_subset_insert [of "p_files s" i "g (p_files s ! i)"]
    by (auto simp: content_ok_files update_file_def)
next
  case False
  with assms(1) show ?thesis by (simp add: content_ok_files update_file_def list_update_beyond)
qed

lemma file_ok_ensureStatus: "file_ok f \<Longrightarrow> file_ok (ensureStatus f)"
  by (simp add: file_ok_def ensureStatus_def)

lemma push_line_ok:
  assumes "content_ok s" and "CR \<notin> set (content dl)"
  shows "content_ok (push_line i j dl s)"
  unfolding push_line_def update_hunk_def
proof (rule update_file_ok [OF assms(1)])
  fix f :: "jsnum DiffFile" assume f: "file_ok f"
  show "file_ok (f\<lparr>hunks := (hunks f)[j := (hunks f ! j)\<lparr>lines := lines (hunks f ! j) @ [dl]\<rparr>]\<rparr>)"
  proof (cases "j < length (hunks f)")
    case True
    with f assms(2) show ?thesis
      using set_update_subset_insert [of "hunks f" j "(hunks f ! j)\<lparr>lines := lines (hunks f ! j) @ [dl]\<rparr>"]
      by (fastforce simp: file_ok_def)
  next
    case False
    with f show ?thesis by (simp add: file_ok_def list_update_beyond)
  qed
qed

lemma content_ok_field [simp]:
  "content_ok (s\<lparr>oldLine := a\<rparr>) = content_ok s"
  "content_ok (s\<lparr>newLine := b\<rparr>) = content_ok s"
  "content_ok (s\<lparr>currentHunk := c\<rparr>) = content_ok s"
  "content_ok (s\<lparr>currentFile := d\<rparr>) = content_ok s"
  by (simp_all add: content_ok_def)


lemma start_file_ok: "content_ok s \<Longrightarrow> content_ok (start_file s g1 g2)"
proof -
  assume a: "content_ok s"
  have e: "content_ok (case currentFile s of Some i \<Rightarrow> update_file i ensureStatus s | None \<Rightarrow> s)"
    using a by (auto split: option.splits intro!: update_file_ok file_ok_ensureStatus)
  then show ?thesis
    unfolding start_file_def Let_def by (simp add: content_ok_def)
qed

lemma file_ok_simps [simp]:
  "file_ok (f\<lparr>status := a\<rparr>) = file_ok f"
  "file_ok (f\<lparr>oldPath := b\<rparr>) = file_ok f"
  "file_ok (f\<lparr>newPath := c\<rparr>) = file_ok f"
  by (simp_all add: file_ok_def)

lemma start_hunk_ok: "content_ok s \<Longrightarrow> content_ok (start_hunk s i line g1 g2 g3 g4)"
  unfolding start_hunk_def Let_def
  by (simp, rule update_file_ok) (simp_all add: file_ok_def)

lemma hunk_line_ok:
  "content_ok s \<Longrightarrow> CR \<notin> set line \<Longrightarrow> content_ok (hunk_line s i j line)"
  unfolding hunk_line_def
  by (auto intro!: push_line_ok dest: in_set_dropD)

lemma file_line_ok:
  "content_ok s \<Longrightarrow> CR \<notin> set line \<Longrightarrow> content_ok (file_line s i line)"
  unfolding file_line_def
  by (auto split: option.splits intro!: update_file_ok start_hunk_ok hunk_line_ok)

lemma parse_line_ok:
  "content_ok s \<Longrightarrow> CR \<notin> set line \<Longrightarrow> content_ok (parse_line s line)"
  unfolding parse_line_def
  by (auto split: option.splits intro!: start_file_ok file_line_ok)

lemma foldl_parse_ok:
  "content_ok s \<Longrightarrow> \<forall>l \<in> set ls. CR \<notin> set l \<Longrightarrow> content_ok (foldl parse_line s ls)"
  by (induction ls arbitrary: s) (auto intro: parse_line_ok)

lemma result_no_CR:
  "\<forall>l \<in> set (result_lines (parseUnifiedDiff raw)). CR \<notin> set (content l)"
proof -
  let ?ls = "split_lines (normalizeLineEndings raw)"
  have "\<forall>l \<in> set ?ls. CR \<notin> set l"
    using split_lines_chars normalize_no_CR by blast
  moreover have "content_ok parser_init" by (simp add: content_ok_def parser_init_def)
  ultimately have "content_ok (foldl parse_line parser_init ?ls)" by (rule foldl_parse_ok [rotated])
  then show ?thesis
    by (auto simp: parseUnifiedDiff_def result_lines_def Let_def content_ok_def ensureStatus_def)
qed

text \<open>
  Claim C9. For every input, parsing the input in which every \<^verbatim>\<open>\r\n\<close> and every bare
  \<^verbatim>\<open>\r\<close> has been replaced by \<^verbatim>\<open>\n\<close> gives the same result as parsing the input
  itself, and no content string of a line of the result contains \<^verbatim>\<open>\r\<close>.
\<close>

theorem parse_line_ending_invariant:
  "parseUnifiedDiff (lf_only rawDiff) = parseUnifiedDiff rawDiff
   \<and> (\<forall>l \<in> set (result_lines (parseUnifiedDiff rawDiff)). CR \<notin> set (content l))"
  using result_no_CR [of rawDiff]
  by (simp add: lf_only_normalize parseUnifiedDiff_def normalize_idem)

theorem parse_line_ending_invariant_witness:
  "parseUnifiedDiff (lf_only (''diff --git a/a b/a'' @ [CR, LF] @ ''@@ -1 +1 @@'' @ [CR] @ ''+hi'' @ [CR, LF]))
     = parseUnifiedDiff (''diff --git a/a b/a'' @ [CR, LF] @ ''@@ -1 +1 @@'' @ [CR] @ ''+hi'' @ [CR, LF])
   \<and> result_lines (parseUnifiedDiff
         (''diff --git a/a b/a'' @ [CR, LF] @ ''@@ -1 +1 @@'' @ [CR] @ ''+hi'' @ [CR, LF]))
       = [\<lparr>type = Added, content = ''hi'', oldLineNumber = None, newLineNumber = Some (Num 1)\<rparr>]
   \<and> CR \<notin> set ''hi''"
proof -
  let ?raw = "''diff --git a/a b/a'' @ [CR, LF] @ ''@@ -1 +1 @@'' @ [CR] @ ''+hi'' @ [CR, LF]"
  have e: "result_lines (parseUnifiedDiff ?raw)
        = [\<lparr>type = Added, content = ''hi'', oldLineNumber = None, newLineNumber = Some (Num 1)\<rparr>]"
    by code_simp
  from parse_line_ending_invariant [of ?raw] e show ?thesis by simp
qed

section \<open>Basic facts about the row builder\<close>

lemma push_rows [simp]:
  "rows (pushContextRow rid t a b s) = rows s @
     [\<lparr>rowId = rid,
       left = LCell LContext \<lparr>type = Context, content = t, oldLineNumber = Some a, newLineNumber = Some b\<rparr>,
       right = RCell RContext \<lparr>type = Context, content = t, oldLineNumber = Some a, newLineNumber = Some b\<rparr> None\<rparr>]"
  "rows (pushRemovedRow rid t a s) = rows s @
     [\<lparr>rowId = rid,
       left = LCell LRemoved \<lparr>type = Removed, content = t, oldLineNumber = Some a, newLineNumber = None\<rparr>,
       right = RSpacer\<rparr>]"
  "rows (pushAddedRow rid t b s) = rows s @
     [\<lparr>rowId = rid, left = LSpacer,
       right = RCell RAdded \<lparr>type = Added, content = t, oldLineNumber = None, newLineNumber = Some b\<rparr>
                 (or_null (lastOldLine s))\<rparr>]"
  by (simp_all add: pushContextRow_def pushRemovedRow_def pushAddedRow_def Let_def)

lemma push_connectors [simp]:
  "connectors (pushContextRow rid t a b s) = connectors s"
  "connectors (pushRemovedRow rid t a s) = connectors s @ [RemovedConn rid rid (or_null (lastNewLine s))]"
  "connectors (pushAddedRow rid t b s) = connectors s @ [AddedConn rid rid (or_null (lastOldLine s))]"
  by (simp_all add: pushContextRow_def pushRemovedRow_def pushAddedRow_def Let_def)

lemma push_last [simp]:
  "lastOldLine (pushContextRow rid t a b s) = a"
  "lastNewLine (pushContextRow rid t a b s) = b"
  "lastOldLine (pushRemovedRow rid t a s) = a"
  "lastNewLine (pushRemovedRow rid t a s) = lastNewLine s"
  "lastOldLine (pushAddedRow rid t b s) = lastOldLine s"
  "lastNewLine (pushAddedRow rid t b s) = b"
  by (simp_all add: pushContextRow_def pushRemovedRow_def pushAddedRow_def Let_def)

lemma push_next [simp]:
  "nextOldLine (pushContextRow rid t a b s) = nextOldLine s"
  "nextNewLine (pushContextRow rid t a b s) = nextNewLine s"
  "nextOldLine (pushRemovedRow rid t a s) = nextOldLine s"
  "nextNewLine (pushRemovedRow rid t a s) = nextNewLine s"
  "nextOldLine (pushAddedRow rid t b s) = nextOldLine s"
  "nextNewLine (pushAddedRow rid t b s) = nextNewLine s"
  by (simp_all add: pushContextRow_def pushRemovedRow_def pushAddedRow_def Let_def)

lemma gap_loop_foldl:
  "gap_loop ol nl os ns oc nc mc off s
     = foldl (\<lambda>s k. gap_step ol nl os ns oc nc k s) s [off..<nat mc]"
proof (induction ol nl os ns oc nc mc off s rule: gap_loop.induct)
  case (1 ol nl os ns oc nc mc off s)
  show ?case
  proof (cases "int off < mc")
    case True
    then have "[off..<nat mc] = off # [off + 1..<nat mc]" by (simp add: upt_conv_Cons)
    with True "1.IH" show ?thesis by (subst gap_loop.simps) simp
  next
    case False
    then show ?thesis by (subst gap_loop.simps) simp
  qed
qed

lemma gap_step_next [simp]:
  "nextOldLine (gap_step ol nl os ns oc nc k s) = nextOldLine s"
  "nextNewLine (gap_step ol nl os ns oc nc k s) = nextNewLine s"
  by (simp_all add: gap_step_def Let_def)

lemma real_snoc [simp]:
  "real_left (rs @ [r]) = real_left rs + (if left r \<noteq> LSpacer then 1 else 0)"
  "real_right (rs @ [r]) = real_right rs + (if right r \<noteq> RSpacer then 1 else 0)"
  by (simp_all add: real_left_def real_right_def)

lemma gap_step_real:
  "real_left (rows (gap_step ol nl os ns oc nc k s))
     = real_left (rows s) + (if int k < oc then 1 else 0)"
  "real_right (rows (gap_step ol nl os ns oc nc k s))
     = real_right (rows s) + (if int k < nc then 1 else 0)"
  by (simp_all add: gap_step_def Let_def)

lemma gap_fold_real_left:
  "real_left (rows (foldl (\<lambda>s k. gap_step ol nl os ns oc nc k s) s [off..<m]))
     = real_left (rows s) + (min (nat oc) m - off)"
proof (induction m)
  case 0
  show ?case by simp
next
  case (Suc m)
  then show ?case by (cases "off \<le> m") (auto simp: gap_step_real)
qed

lemma gap_fold_real_right:
  "real_right (rows (foldl (\<lambda>s k. gap_step ol nl os ns oc nc k s) s [off..<m]))
     = real_right (rows s) + (min (nat nc) m - off)"
proof (induction m)
  case 0
  show ?case by simp
next
  case (Suc m)
  then show ?case by (cases "off \<le> m") (auto simp: gap_step_real)
qed

lemma gap_fold_next:
  "nextOldLine (foldl (\<lambda>s k. gap_step ol nl os ns oc nc k s) s ks) = nextOldLine s"
  "nextNewLine (foldl (\<lambda>s k. gap_step ol nl os ns oc nc k s) s ks) = nextNewLine s"
  by (induction ks arbitrary: s) simp_all

lemma pushGapLines_real:
  "real_left (rows (pushGapLines ol nl os oe ns ne s))
     = real_left (rows s) + nat (oe - int os + 1)"
  "real_right (rows (pushGapLines ol nl os oe ns ne s))
     = real_right (rows s) + nat (ne - int ns + 1)"
  "nextOldLine (pushGapLines ol nl os oe ns ne s) = nextOldLine s"
  "nextNewLine (pushGapLines ol nl os oe ns ne s) = nextNewLine s"
  by (auto simp: pushGapLines_def Let_def gap_loop_foldl gap_fold_real_left
        gap_fold_real_right gap_fold_next)

section \<open>Visual-row completeness\<close>

lemma hunk_step_next [simp]:
  "nextOldLine (fst (hunk_step h ls i s)) = nextOldLine s"
  "nextNewLine (fst (hunk_step h ls i s)) = nextNewLine s"
  by (simp_all add: hunk_step_def Let_def)

lemma drop_two:
  "i + 1 < length ls \<Longrightarrow> drop i ls = ls ! i # ls ! (i + 1) # drop (i + 2) ls"
  by (metis Cons_nth_drop_Suc Suc_eq_plus1 Suc_lessD add_2_eq_Suc')

lemma hunk_step_real:
  assumes "i < length ls"
  shows "real_left (rows (fst (hunk_step h ls i s)))
           + length (filter on_old (drop (snd (hunk_step h ls i s) + 1) ls))
         = real_left (rows s) + length (filter on_old (drop i ls))
       \<and> real_right (rows (fst (hunk_step h ls i s)))
           + length (filter on_new (drop (snd (hunk_step h ls i s) + 1) ls))
         = real_right (rows s) + length (filter on_new (drop i ls))"
proof -
  from assms have d1: "drop i ls = ls ! i # drop (i + 1) ls"
    by (simp add: Cons_nth_drop_Suc)
  have d2: "i + 1 < length ls \<Longrightarrow> drop i ls = ls ! i # ls ! (i + 1) # drop (i + 2) ls"
    by (rule drop_two)
  consider (ctx) "type (ls ! i) = Context"
    | (ra) "type (ls ! i) = Removed" "i + 1 < length ls" "type (ls ! (i + 1)) = Added"
    | (ar) "type (ls ! i) = Added" "i + 1 < length ls" "type (ls ! (i + 1)) = Removed"
    | (r) "type (ls ! i) = Removed" "\<not> (i + 1 < length ls \<and> type (ls ! (i + 1)) = Added)"
    | (a) "type (ls ! i) = Added" "\<not> (i + 1 < length ls \<and> type (ls ! (i + 1)) = Removed)"
    by (cases "type (ls ! i)") auto
  then show ?thesis
  proof cases
    case ctx
    then show ?thesis by (simp add: hunk_step_def Let_def d1 on_old_def on_new_def)
  next
    case ra
    then show ?thesis by (simp add: hunk_step_def Let_def d2 on_old_def on_new_def)
  next
    case ar
    then show ?thesis by (simp add: hunk_step_def Let_def d2 on_old_def on_new_def)
  next
    case r
    then show ?thesis by (auto simp: hunk_step_def Let_def d1 on_old_def on_new_def)
  next
    case a
    then show ?thesis by (auto simp: hunk_step_def Let_def d1 on_old_def on_new_def)
  qed
qed

lemma hunk_loop_real:
  "real_left (rows (hunk_loop h ls i s)) = real_left (rows s) + length (filter on_old (drop i ls))
   \<and> real_right (rows (hunk_loop h ls i s)) = real_right (rows s) + length (filter on_new (drop i ls))
   \<and> nextOldLine (hunk_loop h ls i s) = nextOldLine s
   \<and> nextNewLine (hunk_loop h ls i s) = nextNewLine s"
proof (induction h ls i s rule: hunk_loop.induct)
  case (1 h ls i s)
  show ?case
  proof (cases "i < length ls")
    case True
    with "1.IH" hunk_step_real [OF True, of h s] show ?thesis
      by (subst (1 2 3 4) hunk_loop.simps) simp
  next
    case False
    then show ?thesis by (subst (1 2 3 4) hunk_loop.simps) simp
  qed
qed


lemma do_hunk_full:
  assumes "nextOldLine s \<le> oldStart hunk" and "nextNewLine s \<le> newStart hunk"
    and "oldLines hunk = length (filter on_old (lines hunk))"
    and "newLines hunk = length (filter on_new (lines hunk))"
  shows "real_left (rows (do_hunk True ol nl hunk k s)) + nextOldLine s
           = real_left (rows s) + nextOldLine (do_hunk True ol nl hunk k s)
       \<and> real_right (rows (do_hunk True ol nl hunk k s)) + nextNewLine s
           = real_right (rows s) + nextNewLine (do_hunk True ol nl hunk k s)
       \<and> nextOldLine (do_hunk True ol nl hunk k s) = oldStart hunk + oldLines hunk
       \<and> nextNewLine (do_hunk True ol nl hunk k s) = newStart hunk + newLines hunk"
proof -
  from assms(1) have a: "nat (int (oldStart hunk) - int (nextOldLine s)) + nextOldLine s
      = oldStart hunk" by arith
  from assms(2) have b: "nat (int (newStart hunk) - int (nextNewLine s)) + nextNewLine s
      = newStart hunk" by arith
  show ?thesis
    by (simp add: do_hunk_def Let_def hunk_loop_real pushGapLines_real a b assms(3,4))
qed

lemma hunks_loop_full:
  assumes "hunks_fit M N (nextOldLine s) (nextNewLine s) hs"
  shows "real_left (rows (hunks_loop True ol nl hs k s)) + nextOldLine s
           = real_left (rows s) + nextOldLine (hunks_loop True ol nl hs k s)
       \<and> real_right (rows (hunks_loop True ol nl hs k s)) + nextNewLine s
           = real_right (rows s) + nextNewLine (hunks_loop True ol nl hs k s)
       \<and> nextOldLine (hunks_loop True ol nl hs k s) \<le> M + 1
       \<and> nextNewLine (hunks_loop True ol nl hs k s) \<le> N + 1
       \<and> nextOldLine s \<le> nextOldLine (hunks_loop True ol nl hs k s)
       \<and> nextNewLine s \<le> nextNewLine (hunks_loop True ol nl hs k s)"
  using assms
proof (induction hs arbitrary: s k)
  case Nil
  then show ?case by simp
next
  case (Cons h hs)
  let ?s1 = "do_hunk True ol nl h k s"
  have fit: "nextOldLine s \<le> oldStart h" "nextNewLine s \<le> newStart h"
      "oldLines h = length (filter on_old (lines h))"
      "newLines h = length (filter on_new (lines h))"
      "hunks_fit M N (oldStart h + oldLines h) (newStart h + newLines h) hs"
    using Cons.prems unfolding hunks_fit.simps by blast+
  note d = do_hunk_full [OF fit(1-4), of ol nl k]
  from d fit(5) have f1: "hunks_fit M N (nextOldLine ?s1) (nextNewLine ?s1) hs" by simp
  let ?s2 = "hunks_loop True ol nl hs (k + 1) ?s1"
  have "real_left (rows ?s2) + nextOldLine ?s1 = real_left (rows ?s1) + nextOldLine ?s2
       \<and> real_right (rows ?s2) + nextNewLine ?s1 = real_right (rows ?s1) + nextNewLine ?s2
       \<and> nextOldLine ?s2 \<le> M + 1 \<and> nextNewLine ?s2 \<le> N + 1
       \<and> nextOldLine ?s1 \<le> nextOldLine ?s2 \<and> nextNewLine ?s1 \<le> nextNewLine ?s2"
    by (rule Cons.IH [OF f1])
  with d fit(1,2) show ?case by simp
qed

lemma do_hunk_bare:
  "real_left (rows (do_hunk False ol nl hunk k s))
     = real_left (rows s) + length (filter on_old (lines hunk))
   \<and> real_right (rows (do_hunk False ol nl hunk k s))
     = real_right (rows s) + length (filter on_new (lines hunk))"
  by (simp add: do_hunk_def Let_def hunk_loop_real)

lemma hunks_loop_bare:
  assumes "hunks_fit 0 0 no nn hs" and "1 \<le> no" and "1 \<le> nn"
  shows "real_left (rows (hunks_loop False ol nl hs k s)) = real_left (rows s)
       \<and> real_right (rows (hunks_loop False ol nl hs k s)) = real_right (rows s)"
  using assms
proof (induction hs arbitrary: s k no nn)
  case Nil
  then show ?case by simp
next
  case (Cons h hs)
  have fit: "no \<le> oldStart h" "nn \<le> newStart h"
      "oldLines h = length (filter on_old (lines h))"
      "newLines h = length (filter on_new (lines h))"
      "hunks_fit 0 0 (oldStart h + oldLines h) (newStart h + newLines h) hs"
    using Cons.prems(1) unfolding hunks_fit.simps by blast+
  have le: "hunks_fit 0 0 a b hs' \<Longrightarrow> a \<le> 1 \<and> b \<le> 1" for a b hs'
    by (induction hs' arbitrary: a b) fastforce+
  from le [OF fit(5)] fit(1,2) Cons.prems(2,3)
  have z: "oldLines h = 0" "newLines h = 0" by arith+
  from Cons.prems(2,3) fit(1,2)
  have ge: "1 \<le> oldStart h + oldLines h" "1 \<le> newStart h + newLines h" by arith+
  let ?s1 = "do_hunk False ol nl h k s"
  have "real_left (rows (hunks_loop False ol nl hs (k + 1) ?s1)) = real_left (rows ?s1)
       \<and> real_right (rows (hunks_loop False ol nl hs (k + 1) ?s1)) = real_right (rows ?s1)"
    by (rule Cons.IH [OF fit(5) ge])
  with do_hunk_bare [of ol nl h k s] z fit(3,4)
  show ?case by simp
qed

text \<open>
  In the builder's reading of the headers the rows are complete: for hunks that fit full
  contents of \<open>M\<close> old and \<open>N\<close> new lines from line 1 on, the rows have exactly \<open>M\<close> real
  left cells and \<open>N\<close> real right cells.
\<close>

lemma rows_complete_when_fit:
  assumes "hunks_fit (length oldFileLines) (length newFileLines) 1 1 (hunks file)"
  shows "real_left (fst (buildVisualRows file (Some oldFileLines) (Some newFileLines)))
           = length oldFileLines
       \<and> real_right (fst (buildVisualRows file (Some oldFileLines) (Some newFileLines)))
           = length newFileLines"
proof (cases "has_full_files (Some oldFileLines) (Some newFileLines)")
  case True
  let ?s = "hunks_loop True oldFileLines newFileLines (hunks file) 0 builder_init"
  from assms have "hunks_fit (length oldFileLines) (length newFileLines)
      (nextOldLine builder_init) (nextNewLine builder_init) (hunks file)"
    by (simp add: builder_init_def)
  note h = hunks_loop_full [OF this, of oldFileLines newFileLines 0]
  have i: "real_left (rows builder_init) = 0" "real_right (rows builder_init) = 0"
      "nextOldLine builder_init = 1" "nextNewLine builder_init = 1"
    by (simp_all add: builder_init_def real_left_def real_right_def)
  from h i have l: "real_left (rows ?s) + 1 = nextOldLine ?s" "nextOldLine ?s \<le> length oldFileLines + 1"
    and r: "real_right (rows ?s) + 1 = nextNewLine ?s" "nextNewLine ?s \<le> length newFileLines + 1"
    by simp_all
  from l have gl: "real_left (rows ?s) + nat (int (length oldFileLines) - int (nextOldLine ?s) + 1)
      = length oldFileLines" by arith
  from r have gr: "real_right (rows ?s) + nat (int (length newFileLines) - int (nextNewLine ?s) + 1)
      = length newFileLines" by arith
  from True gl gr show ?thesis
    by (simp add: buildVisualRows_def build_rows_def Let_def or_else_def pushGapLines_real)
next
  case False
  then have e: "length oldFileLines = 0" "length newFileLines = 0"
    by (simp_all add: has_full_files_def)
  with assms have "hunks_fit 0 0 1 1 (hunks file)" by simp
  from hunks_loop_bare [OF this, of oldFileLines newFileLines 0 builder_init] False e
  show ?thesis
    by (simp add: buildVisualRows_def build_rows_def Let_def or_else_def builder_init_def
          real_left_def real_right_def)
qed

text \<open>
  Claim C2 fails on the code. The header that git writes for an added file,
  \<^verbatim>\<open>@@ -0,0 +1,2 @@\<close>, is well-formed and consistent with an empty old file and a new
  file of two lines. After its hunk the builder sets the next old line to \<open>0 + 0\<close>, and the
  trailing gap then runs from old line 0 to the end of the old file, line 0: it makes the
  row \<^verbatim>\<open>removed-full-0\<close> for a line that the old file does not have. The rows have one
  real left cell where the old file has no line.
\<close>

theorem added_file_extra_left_row:
  "files (parseUnifiedDiff example_added_diff) = [js_file example_added_file]
   \<and> well_formed_hunks (length ([] :: string list)) (length [''first'', ''second''])
        (hunks example_added_file)
   \<and> map rowId (fst (buildVisualRows example_added_file (Some []) (Some [''first'', ''second''])))
       = [''added-0-0'', ''added-0-1'', ''removed-full-0'']
   \<and> real_left (fst (buildVisualRows example_added_file (Some []) (Some [''first'', ''second''])))
       = 1
   \<and> real_right (fst (buildVisualRows example_added_file (Some []) (Some [''first'', ''second''])))
       = 2"
  by code_simp

section \<open>Gap rows\<close>

lemma gap_step_row:
  assumes "int k < max oc nc"
  shows "\<exists>r. rows (gap_step ol nl os ns oc nc k s) = rows s @ [r]
           \<and> is_context_row r = (int k < oc \<and> int k < nc)"
proof -
  consider (both) "int k < oc" "int k < nc"
    | (old) "int k < oc" "\<not> int k < nc"
    | (new) "\<not> int k < oc" "int k < nc"
    using assms by linarith
  then show ?thesis
  proof cases
    case both
    then show ?thesis by (simp add: gap_step_def Let_def)
  next
    case old
    then show ?thesis by (simp add: gap_step_def Let_def)
  next
    case new
    then show ?thesis by (simp add: gap_step_def Let_def)
  qed
qed

lemma gap_step_connectors:
  "int k < oc \<Longrightarrow> int k < nc \<Longrightarrow> connectors (gap_step ol nl os ns oc nc k s) = connectors s"
  by (simp add: gap_step_def Let_def)

lemma gap_fold_rows:
  assumes "int m \<le> max oc nc"
  shows "length (rows (foldl (\<lambda>s k. gap_step ol nl os ns oc nc k s) s [0..<m]))
           = length (rows s) + m
       \<and> take (length (rows s)) (rows (foldl (\<lambda>s k. gap_step ol nl os ns oc nc k s) s [0..<m]))
           = rows s
       \<and> (\<forall>k < m. is_context_row
              (rows (foldl (\<lambda>s k. gap_step ol nl os ns oc nc k s) s [0..<m]) ! (length (rows s) + k))
            = (int k < oc \<and> int k < nc))"
  using assms
proof (induction m)
  case 0
  show ?case by simp
next
  case (Suc m)
  let ?sm = "foldl (\<lambda>s k. gap_step ol nl os ns oc nc k s) s [0..<m]"
  from Suc.prems have m: "int m < max oc nc" and le: "int m \<le> max oc nc" by linarith+
  from Suc.IH [OF le] have len: "length (rows ?sm) = length (rows s) + m"
    and tk: "take (length (rows s)) (rows ?sm) = rows s"
    and ctx: "\<And>k. k < m \<Longrightarrow> is_context_row (rows ?sm ! (length (rows s) + k))
                 = (int k < oc \<and> int k < nc)"
    by blast+
  obtain r where r: "rows (gap_step ol nl os ns oc nc m ?sm) = rows ?sm @ [r]"
    and rc: "is_context_row r = (int m < oc \<and> int m < nc)"
    using gap_step_row [OF m] by blast
  have fold: "foldl (\<lambda>s k. gap_step ol nl os ns oc nc k s) s [0..<Suc m]
      = gap_step ol nl os ns oc nc m ?sm" by simp
  have "is_context_row ((rows ?sm @ [r]) ! (length (rows s) + k)) = (int k < oc \<and> int k < nc)"
    if "k < Suc m" for k
  proof (cases "k < m")
    case True
    with len have "(rows ?sm @ [r]) ! (length (rows s) + k) = rows ?sm ! (length (rows s) + k)"
      by (simp add: nth_append)
    with ctx [OF True] show ?thesis by simp
  next
    case False
    with that have "k = m" by simp
    with len rc show ?thesis by (simp add: nth_append)
  qed
  with len tk show ?case unfolding fold r by simp
qed

lemma gap_fold_connectors:
  assumes "int m \<le> oc" "int m \<le> nc"
  shows "connectors (foldl (\<lambda>s k. gap_step ol nl os ns oc nc k s) s [0..<m]) = connectors s"
  using assms
proof (induction m)
  case 0
  show ?case by simp
next
  case (Suc m)
  then show ?case by (simp add: gap_step_connectors)
qed

text \<open>
  What \<open>pushGapLines\<close> appends. The rows that were there stay, and a row is appended for
  each offset up to the longer side of the gap; the row with offset \<open>k\<close> is a context row
  if and only if both sides still have a line there. When the gap is equally long on both
  sides, all its rows are context rows and no connector is added.
\<close>

lemma gap_rows_kinds:
  "take (length (rows s)) (rows (pushGapLines ol nl os oe ns ne s)) = rows s
   \<and> (\<forall>k < length (rows (pushGapLines ol nl os oe ns ne s)) - length (rows s).
         is_context_row (rows (pushGapLines ol nl os oe ns ne s) ! (length (rows s) + k))
           = (int k \<le> oe - int os \<and> int k \<le> ne - int ns))
   \<and> (oe - int os = ne - int ns \<longrightarrow>
         (\<forall>r \<in> set (drop (length (rows s)) (rows (pushGapLines ol nl os oe ns ne s))).
            is_context_row r)
         \<and> connectors (pushGapLines ol nl os oe ns ne s) = connectors s)"
proof (cases "oe < int os \<and> ne < int ns")
  case True
  then show ?thesis by (simp add: pushGapLines_def)
next
  case False
  define oc where "oc = max 0 (oe - int os + 1)"
  define nc where "nc = max 0 (ne - int ns + 1)"
  define m where "m = nat (max oc nc)"
  let ?f = "foldl (\<lambda>s k. gap_step ol nl os ns oc nc k s) s [0..<m]"
  from False have p: "pushGapLines ol nl os oe ns ne s = ?f"
    by (simp add: pushGapLines_def Let_def gap_loop_foldl oc_def nc_def m_def)
  have mle: "int m \<le> max oc nc" by (simp add: m_def oc_def nc_def)
  note g = gap_fold_rows [OF mle, of ol nl os ns s]
  from g have len: "length (rows ?f) = length (rows s) + m"
    and tk: "take (length (rows s)) (rows ?f) = rows s"
    and ctx: "\<And>k. k < m \<Longrightarrow> is_context_row (rows ?f ! (length (rows s) + k))
                 = (int k < oc \<and> int k < nc)"
    by blast+
  have iff: "(int k < oc \<and> int k < nc) = (int k \<le> oe - int os \<and> int k \<le> ne - int ns)" for k
    by (auto simp: oc_def nc_def)
  have eq: "(\<forall>r \<in> set (drop (length (rows s)) (rows ?f)). is_context_row r)
      \<and> connectors ?f = connectors s" if e: "oe - int os = ne - int ns"
  proof
    from e have same: "oc = nc" by (simp add: oc_def nc_def)
    then have mm: "int m \<le> oc" "int m \<le> nc" by (simp_all add: m_def oc_def nc_def)
    show "\<forall>r \<in> set (drop (length (rows s)) (rows ?f)). is_context_row r"
    proof
      fix r assume "r \<in> set (drop (length (rows s)) (rows ?f))"
      then obtain j where j: "j < length (drop (length (rows s)) (rows ?f))"
        and rj: "r = drop (length (rows s)) (rows ?f) ! j"
        by (metis in_set_conv_nth)
      from j len have jm: "j < m" by simp
      from rj len jm have "r = rows ?f ! (length (rows s) + j)" by simp
      with ctx [OF jm] jm mm show "is_context_row r" by simp
    qed
    show "connectors ?f = connectors s" by (rule gap_fold_connectors [OF mm])
  qed
  show ?thesis
    unfolding p using tk len ctx iff eq by simp
qed

lemma gap_fold_exact:
  assumes "int m \<le> oc" "int m \<le> nc"
  shows "rows (foldl (\<lambda>s k. gap_step ol nl os ns oc nc k s) s [0..<m])
           = rows s @ map (\<lambda>k. context_gap_row ol (os + k) (ns + k)) [0..<m]"
  using assms
proof (induction m)
  case 0
  show ?case by simp
next
  case (Suc m)
  then show ?case by (simp add: gap_step_def Let_def context_gap_row_def)
qed

text \<open>
  A gap that is equally long on both sides, as the gaps between the hunks of a diff are:
  its rows are the context rows of its lines, one for each line and in order, with the
  text of the old line, and no connector is added.
\<close>

lemma gap_rows_exact:
  assumes "oe - int os = ne - int ns"
  shows "rows (pushGapLines ol nl os oe ns ne s)
           = rows s @ map (\<lambda>k. context_gap_row ol (os + k) (ns + k)) [0..<nat (oe - int os + 1)]
       \<and> connectors (pushGapLines ol nl os oe ns ne s) = connectors s"
proof (cases "oe < int os \<and> ne < int ns")
  case True
  then show ?thesis by (simp add: pushGapLines_def)
next
  case False
  define oc where "oc = max 0 (oe - int os + 1)"
  define nc where "nc = max 0 (ne - int ns + 1)"
  define m where "m = nat (max oc nc)"
  from False have p: "pushGapLines ol nl os oe ns ne s
      = foldl (\<lambda>s k. gap_step ol nl os ns oc nc k s) s [0..<m]"
    by (simp add: pushGapLines_def Let_def gap_loop_foldl oc_def nc_def m_def)
  from assms have mm: "int m \<le> oc" "int m \<le> nc" and m: "m = nat (oe - int os + 1)"
    by (simp_all add: m_def oc_def nc_def)
  from gap_fold_exact [OF mm] gap_fold_connectors [OF mm] show ?thesis
    unfolding p m by simp
qed

text \<open>
  Claim C8 fails on the code. The header that git writes for a deleted file,
  \<^verbatim>\<open>@@ -1 +0,0 @@\<close>, has the new start 0. After its hunk the builder sets the next new
  line to \<open>0 + 0\<close>, and the trailing gap then runs from new line 0 to the end of the new
  file, line 0: the gap row it makes is not a context row but the added row
  \<^verbatim>\<open>added-full-0\<close>, with a connector, for a line that the new file does not have (its
  text is that of the array element before the first, the empty string).
\<close>

theorem deleted_file_added_gap_row:
  "files (parseUnifiedDiff example_deleted_diff) = [js_file example_deleted_file]
   \<and> fst (buildVisualRows example_deleted_file (Some [''old'']) (Some []))
       = [\<lparr>rowId = ''removed-0-0'',
           left = LCell LRemoved \<lparr>type = Removed, content = ''old'', oldLineNumber = Some 1,
                    newLineNumber = None\<rparr>,
           right = RSpacer\<rparr>,
          \<lparr>rowId = ''added-full-0'', left = LSpacer,
           right = RCell RAdded \<lparr>type = Added, content = [], oldLineNumber = None,
                     newLineNumber = Some 0\<rparr> (Some 1)\<rparr>]
   \<and> \<not> is_context_row (last (fst (buildVisualRows example_deleted_file (Some [''old'']) (Some []))))
   \<and> snd (buildVisualRows example_deleted_file (Some [''old'']) (Some []))
       = [RemovedConn ''removed-0-0'' ''removed-0-0'' None,
          AddedConn ''added-full-0'' ''added-full-0'' (Some 1)]"
  by code_simp

section \<open>Alignment of the two panes\<close>

lemma running_fold_length:
  "length (lRun (foldl running_step t rs)) = length (lRun t) + length rs
   \<and> length (rRun (foldl running_step t rs)) = length (rRun t) + length rs"
  by (induction rs arbitrary: t) (simp_all add: running_step_def Let_def)

lemma running_length [simp]:
  "length (leftRunning rs) = length rs" "length (rightRunning rs) = length rs"
  using running_fold_length [of running_init rs]
  by (simp_all add: leftRunning_def rightRunning_def running_init_def)

text \<open>
  What the offsets do give: the row at the unified scroll position, when it has real
  content on both sides, is drawn at the same height on both sides (in exact arithmetic).
\<close>

lemma scroll_row_aligned:
  assumes "rs \<noteq> []"
    and "idx = nat (max 0 (min \<lfloor>st / real ROW_HEIGHT\<rfloor> (int (length rs) - 1)))"
    and "left (rs ! idx) \<noteq> LSpacer" and "right (rs ! idx) \<noteq> RSpacer"
  shows "leftVisualY rs idx st = rightVisualY rs idx st"
proof -
  let ?j = "max 0 (min \<lfloor>st / real ROW_HEIGHT\<rfloor> (int (length rs) - 1))"
  from assms(1) have j: "0 \<le> ?j" "?j < int (length rs)" by (simp_all add: Suc_leI)
  from assms(2) have n: "nat ?j = idx" by simp
  from j have l: "nth_or (leftRunning rs) ?j 0 = leftRunning rs ! idx"
    and r: "nth_or (rightRunning rs) ?j 0 = rightRunning rs ! idx"
    unfolding nth_or_def running_length n by simp_all
  show ?thesis
    using assms(1,3,4)
    unfolding leftVisualY_def rightVisualY_def computeOffsets_def Let_def l r n
    by simp
qed

lemma ex_rows: "example_insert_rows =
  [\<lparr>rowId = ''context-0-0'',
     left = LCell LContext \<lparr>type = Context, content = ''a'', oldLineNumber = Some 1, newLineNumber = Some 1\<rparr>,
     right = RCell RContext \<lparr>type = Context, content = ''a'', oldLineNumber = Some 1, newLineNumber = Some 1\<rparr> None\<rparr>,
   \<lparr>rowId = ''added-0-1'', left = LSpacer,
     right = RCell RAdded \<lparr>type = Added, content = ''x'', oldLineNumber = None, newLineNumber = Some 2\<rparr> (Some 1)\<rparr>,
   \<lparr>rowId = ''context-0-2'',
     left = LCell LContext \<lparr>type = Context, content = ''b'', oldLineNumber = Some 2, newLineNumber = Some 3\<rparr>,
     right = RCell RContext \<lparr>type = Context, content = ''b'', oldLineNumber = Some 2, newLineNumber = Some 3\<rparr> None\<rparr>]"
  by code_simp

text \<open>
  Claim C1 says that a row with real content on both sides has the same visual position
  on both sides at every scroll position. The code does not give this: after one inserted
  line, the next unchanged row is item 1 of the left pane and item 2 of the right pane,
  and at scroll position 0 both panes have offset 0, so the row is drawn at 24 on the
  left and at 48 on the right.
\<close>

theorem insert_breaks_alignment:
  "left (example_insert_rows ! 2) \<noteq> LSpacer
   \<and> right (example_insert_rows ! 2) \<noteq> RSpacer
   \<and> leftVisualY example_insert_rows 2 0 = 24
   \<and> rightVisualY example_insert_rows 2 0 = 48"
proof -
  have lr: "leftRunning example_insert_rows = [0, 1, 1]" by code_simp
  have rr: "rightRunning example_insert_rows = [0, 1, 2]" by code_simp
  have len: "length example_insert_rows = 3" by (simp add: ex_rows)
  have c: "left (example_insert_rows ! 2) \<noteq> LSpacer" "right (example_insert_rows ! 2) \<noteq> RSpacer"
     "left (example_insert_rows ! 0) \<noteq> LSpacer" "right (example_insert_rows ! 0) \<noteq> RSpacer"
    by (simp_all add: ex_rows)
  have off: "computeOffsets example_insert_rows 0 = (0, 0)"
    unfolding computeOffsets_def Let_def lr rr len
    by (simp add: nth_or_def)
  show ?thesis
    using c by (simp add: leftVisualY_def rightVisualY_def off lr rr ROW_HEIGHT_def)
qed

section \<open>Row identifiers\<close>

lemma render_inj: "render a = render b \<Longrightarrow> a = b"
proof (cases a)
  case (HunkKey kd h i)
  show "render a = render b \<Longrightarrow> a = b"
  proof (cases b)
    case (HunkKey kd' h' i')
    assume "render a = render b"
    with \<open>a = HunkKey kd h i\<close> HunkKey show ?thesis
      by (cases kd; cases kd') (auto dest: show_nat_pair)
  next
    case (ContextFull ol nl)
    assume "render a = render b"
    with \<open>a = HunkKey kd h i\<close> ContextFull show ?thesis
      by (cases kd) (auto dest: show_nat_Cons simp: not_digit_f)
  next
    case (RemovedFull ol)
    assume "render a = render b"
    with \<open>a = HunkKey kd h i\<close> RemovedFull show ?thesis
      by (cases kd) (auto dest: show_nat_Cons simp: not_digit_f)
  next
    case (AddedFull nl)
    assume "render a = render b"
    with \<open>a = HunkKey kd h i\<close> AddedFull show ?thesis
      by (cases kd) (auto dest: show_nat_Cons simp: not_digit_f)
  qed
next
  case (ContextFull ol nl)
  assume e: "render a = render b"
  show ?thesis
  proof (cases b)
    case (HunkKey kd' h' i')
    with e ContextFull show ?thesis
      by (cases kd') (auto dest: show_nat_Cons [OF sym] simp: not_digit_f)
  next
    case (ContextFull ol' nl')
    with e \<open>a = ContextFull ol nl\<close> show ?thesis by (auto dest: show_nat_pair)
  qed (use e ContextFull in auto)
next
  case (RemovedFull ol)
  assume e: "render a = render b"
  show ?thesis
  proof (cases b)
    case (HunkKey kd' h' i')
    with e RemovedFull show ?thesis
      by (cases kd') (auto dest: show_nat_Cons [OF sym] simp: not_digit_f)
  next
    case (RemovedFull ol')
    with e \<open>a = RemovedFull ol\<close> show ?thesis by (auto dest: show_nat_inj)
  qed (use e RemovedFull in auto)
next
  case (AddedFull nl)
  assume e: "render a = render b"
  show ?thesis
  proof (cases b)
    case (HunkKey kd' h' i')
    with e AddedFull show ?thesis
      by (cases kd') (auto dest: show_nat_Cons [OF sym] simp: not_digit_f)
  next
    case (AddedFull nl')
    with e \<open>a = AddedFull nl\<close> show ?thesis by (auto dest: show_nat_inj)
  qed (use e AddedFull in auto)
qed

lemma keys_distinct: "keys_inv k i bo bn ids \<Longrightarrow> distinct ids"
  unfolding keys_inv_def
  by (auto simp: distinct_map inj_on_def dest: render_inj)

lemma made_mono:
  "made_before k i bo bn a \<Longrightarrow> k < k' \<or> (k = k' \<and> i \<le> i') \<Longrightarrow> bo \<le> bo' \<Longrightarrow> bn \<le> bn'
     \<Longrightarrow> made_before k' i' bo' bn' a"
  by (cases a) auto

lemma keys_mono:
  "keys_inv k i bo bn ids \<Longrightarrow> k < k' \<or> (k = k' \<and> i \<le> i') \<Longrightarrow> bo \<le> bo' \<Longrightarrow> bn \<le> bn'
     \<Longrightarrow> keys_inv k' i' bo' bn' ids"
  unfolding keys_inv_def using made_mono by blast

lemma keys_snoc:
  assumes inv: "keys_inv k i bo bn ids" and new: "\<not> made_before k i bo bn a"
    and after: "made_before k' i' bo' bn' a"
    and le: "k < k' \<or> (k = k' \<and> i \<le> i')" "bo \<le> bo'" "bn \<le> bn'"
  shows "keys_inv k' i' bo' bn' (ids @ [render a])"
proof -
  from inv obtain keys where k: "ids = map render keys" "distinct keys"
    "\<forall>b \<in> set keys. made_before k i bo bn b" unfolding keys_inv_def by blast
  from k(3) new have "a \<notin> set keys" by blast
  with k(2) have d: "distinct (keys @ [a])" by simp
  have m: "\<forall>b \<in> set (keys @ [a]). made_before k' i' bo' bn' b"
    using k(3) after made_mono [OF _ le] by auto
  have "ids @ [render a] = map render (keys @ [a])" using k(1) by simp
  with d m show ?thesis unfolding keys_inv_def by blast
qed

lemma keys_gap_step:
  assumes inv: "keys_inv K I (gap_reach bo os k (nat oc)) (gap_reach bn ns k (nat nc))
                  (map rowId (rows s))"
    and le: "bo \<le> os" "bn \<le> ns"
  shows "keys_inv K I (gap_reach bo os (k + 1) (nat oc)) (gap_reach bn ns (k + 1) (nat nc))
           (map rowId (rows (gap_step ol nl os ns oc nc k s)))"
proof -
  have mo: "gap_reach bo os k (nat oc) \<le> gap_reach bo os (k + 1) (nat oc)"
    and mn: "gap_reach bn ns k (nat nc) \<le> gap_reach bn ns (k + 1) (nat nc)"
    using le by (auto simp: gap_reach_def)
  have o: "\<not> os + k < gap_reach bo os k (nat oc)" "os + k < gap_reach bo os (k + 1) (nat oc)"
    if "int k < oc"
    using that le by (auto simp: gap_reach_def)
  have n: "\<not> ns + k < gap_reach bn ns k (nat nc)" "ns + k < gap_reach bn ns (k + 1) (nat nc)"
    if "int k < nc"
    using that le by (auto simp: gap_reach_def)
  consider (both) "int k < oc" "int k < nc"
    | (old) "int k < oc" "\<not> int k < nc"
    | (new) "\<not> int k < oc" "int k < nc"
    | (none) "\<not> int k < oc" "\<not> int k < nc"
    by blast
  then show ?thesis
  proof cases
    case both
    have "keys_inv K I (gap_reach bo os (k + 1) (nat oc)) (gap_reach bn ns (k + 1) (nat nc))
        (map rowId (rows s) @ [render (ContextFull (os + k) (ns + k))])"
      by (rule keys_snoc [OF inv _ _ _ mo mn]) (use o [OF both(1)] in simp_all)
    with both show ?thesis by (simp add: gap_step_def Let_def)
  next
    case old
    have "keys_inv K I (gap_reach bo os (k + 1) (nat oc)) (gap_reach bn ns (k + 1) (nat nc))
        (map rowId (rows s) @ [render (RemovedFull (os + k))])"
      by (rule keys_snoc [OF inv _ _ _ mo mn]) (use o [OF old(1)] in simp_all)
    with old show ?thesis by (simp add: gap_step_def Let_def)
  next
    case new
    have "keys_inv K I (gap_reach bo os (k + 1) (nat oc)) (gap_reach bn ns (k + 1) (nat nc))
        (map rowId (rows s) @ [render (AddedFull (ns + k))])"
      by (rule keys_snoc [OF inv _ _ _ mo mn]) (use n [OF new(2)] in simp_all)
    with new show ?thesis by (simp add: gap_step_def Let_def)
  next
    case none
    have "keys_inv K I (gap_reach bo os (k + 1) (nat oc)) (gap_reach bn ns (k + 1) (nat nc))
        (map rowId (rows s))"
      by (rule keys_mono [OF inv _ mo mn]) simp
    with none show ?thesis by (simp add: gap_step_def Let_def)
  qed
qed

lemma keys_gap_fold:
  assumes "keys_inv K I bo bn (map rowId (rows s))" and le: "bo \<le> os" "bn \<le> ns"
  shows "keys_inv K I (gap_reach bo os m (nat oc)) (gap_reach bn ns m (nat nc))
           (map rowId (rows (foldl (\<lambda>s k. gap_step ol nl os ns oc nc k s) s [0..<m])))"
proof (induction m)
  case 0
  from assms show ?case by (simp add: gap_reach_def)
next
  case (Suc m)
  from keys_gap_step [OF Suc.IH le] show ?case by simp
qed

lemma keys_pushGapLines:
  assumes inv: "keys_inv K I bo bn (map rowId (rows s))" and le: "bo \<le> os" "bn \<le> ns"
  shows "keys_inv K I (max bo (nat (oe + 1))) (max bn (nat (ne + 1)))
           (map rowId (rows (pushGapLines ol nl os oe ns ne s)))"
proof (cases "oe < int os \<and> ne < int ns")
  case True
  have "keys_inv K I (max bo (nat (oe + 1))) (max bn (nat (ne + 1))) (map rowId (rows s))"
    by (rule keys_mono [OF inv]) auto
  with True show ?thesis by (simp add: pushGapLines_def)
next
  case False
  define oc where "oc = max 0 (oe - int os + 1)"
  define nc where "nc = max 0 (ne - int ns + 1)"
  define m where "m = nat (max oc nc)"
  from False have p: "pushGapLines ol nl os oe ns ne s
      = foldl (\<lambda>s k. gap_step ol nl os ns oc nc k s) s [0..<m]"
    by (simp add: pushGapLines_def Let_def gap_loop_foldl oc_def nc_def m_def)
  have b: "gap_reach bo os m (nat oc) \<le> max bo (nat (oe + 1))"
      "gap_reach bn ns m (nat nc) \<le> max bn (nat (ne + 1))"
    by (auto simp: gap_reach_def m_def oc_def nc_def)
  from keys_gap_fold [OF inv le, of m oc nc ol nl]
  show ?thesis unfolding p by (rule keys_mono [OF _ _ b]) simp
qed

lemma keys_hunk_step:
  assumes inv: "keys_inv k i bo bn (map rowId (rows s))"
  shows "keys_inv k (snd (hunk_step k ls i s) + 1) bo bn (map rowId (rows (fst (hunk_step k ls i s))))"
proof -
  have row: "keys_inv k i' bo bn (map rowId (rows s) @ [render (HunkKey kd k i)])"
    if "i < i'" for kd i'
    by (rule keys_snoc [OF inv]) (use that in auto)
  have same: "keys_inv k (i + 1) bo bn (map rowId (rows s))"
    by (rule keys_mono [OF inv]) auto
  show ?thesis
    using row [of "i + 1" HContext] row [of "i + 2" HChange] row [of "i + 1" HRemoved]
      row [of "i + 1" HAdded] same
    by (simp add: hunk_step_def Let_def)
qed

lemma keys_hunk_loop:
  "keys_inv k i bo bn (map rowId (rows s))
     \<Longrightarrow> \<exists>i'. keys_inv k i' bo bn (map rowId (rows (hunk_loop k ls i s)))"
proof (induction k ls i s rule: hunk_loop.induct)
  case (1 k ls i s)
  show ?case
  proof (cases "i < length ls")
    case True
    from "1.IH" [OF True keys_hunk_step [OF "1.prems"]] True
    show ?thesis by (subst hunk_loop.simps) simp
  next
    case False
    with "1.prems" show ?thesis by (subst hunk_loop.simps) auto
  qed
qed

lemma keys_do_hunk:
  assumes inv: "keys_inv k 0 bo bn (map rowId (rows s))"
    and le: "bo \<le> nextOldLine s" "bn \<le> nextNewLine s"
  shows "keys_inv (k + 1) 0 (max bo (oldStart h)) (max bn (newStart h))
           (map rowId (rows (do_hunk full ol nl h k s)))"
proof -
  define s1 where "s1 = (if full then pushGapLines ol nl (nextOldLine s) (int (oldStart h) - 1)
      (nextNewLine s) (int (newStart h) - 1) s else s)"
  have "keys_inv k 0 (max bo (oldStart h)) (max bn (newStart h)) (map rowId (rows s1))"
  proof (cases full)
    case True
    from keys_pushGapLines [OF inv le, of "int (oldStart h) - 1" "int (newStart h) - 1" ol nl]
    show ?thesis by (simp add: s1_def True)
  next
    case False
    have "keys_inv k 0 (max bo (oldStart h)) (max bn (newStart h)) (map rowId (rows s))"
      by (rule keys_mono [OF inv]) auto
    then show ?thesis by (simp add: s1_def False)
  qed
  from keys_hunk_loop [OF this] obtain i' where
    "keys_inv k i' (max bo (oldStart h)) (max bn (newStart h))
       (map rowId (rows (hunk_loop k (lines h) 0 s1)))" by blast
  then have "keys_inv (k + 1) 0 (max bo (oldStart h)) (max bn (newStart h))
      (map rowId (rows (hunk_loop k (lines h) 0 s1)))"
    by (rule keys_mono) auto
  then show ?thesis by (simp add: do_hunk_def Let_def s1_def)
qed

lemma keys_hunks_loop:
  "hunks_ascending bo bn hs
     \<Longrightarrow> keys_inv k 0 bo bn (map rowId (rows s))
     \<Longrightarrow> bo \<le> nextOldLine s \<Longrightarrow> bn \<le> nextNewLine s
     \<Longrightarrow> \<exists>k' bo' bn'. keys_inv k' 0 bo' bn' (map rowId (rows (hunks_loop full ol nl hs k s)))
           \<and> bo' \<le> nextOldLine (hunks_loop full ol nl hs k s)
           \<and> bn' \<le> nextNewLine (hunks_loop full ol nl hs k s)"
proof (induction hs arbitrary: k s bo bn)
  case Nil
  then show ?case by auto
next
  case (Cons h hs)
  from Cons.prems(1) have le: "bo \<le> oldStart h + oldLines h" "bn \<le> newStart h + newLines h"
    and rest: "hunks_ascending (max bo (oldStart h)) (max bn (newStart h)) hs"
    by simp_all
  let ?s = "do_hunk full ol nl h k s"
  have n: "nextOldLine ?s = oldStart h + oldLines h" "nextNewLine ?s = newStart h + newLines h"
    by (simp_all add: do_hunk_def Let_def)
  have b: "max bo (oldStart h) \<le> nextOldLine ?s" "max bn (newStart h) \<le> nextNewLine ?s"
    unfolding n using le by simp_all
  from Cons.IH [OF rest keys_do_hunk [OF Cons.prems(2,3,4)] b] show ?case by simp
qed

lemma keys_do_hunk_bare:
  assumes inv: "keys_inv k 0 bo bn (map rowId (rows s))"
  shows "keys_inv (k + 1) 0 bo bn (map rowId (rows (do_hunk False ol nl h k s)))"
proof -
  from keys_hunk_loop [OF inv] obtain i' where
    "keys_inv k i' bo bn (map rowId (rows (hunk_loop k (lines h) 0 s)))" by blast
  then have "keys_inv (k + 1) 0 bo bn (map rowId (rows (hunk_loop k (lines h) 0 s)))"
    by (rule keys_mono) auto
  then show ?thesis by (simp add: do_hunk_def Let_def)
qed

lemma keys_hunks_loop_bare:
  "keys_inv k 0 bo bn (map rowId (rows s))
     \<Longrightarrow> \<exists>k'. keys_inv k' 0 bo bn (map rowId (rows (hunks_loop False ol nl hs k s)))"
proof (induction hs arbitrary: k s)
  case Nil
  then show ?case by auto
next
  case (Cons h hs)
  from Cons.IH [OF keys_do_hunk_bare [OF Cons.prems]] show ?case by simp
qed

lemma keys_init: "keys_inv 0 0 0 0 (map rowId (rows builder_init))"
  by (simp add: keys_inv_def builder_init_def)

lemma row_ids_distinct:
  assumes "has_full_files oldFileLines newFileLines \<longrightarrow> hunks_ascending 0 0 (hunks f)"
  shows "distinct (map rowId (rows (build_rows f oldFileLines newFileLines)))"
proof (cases "has_full_files oldFileLines newFileLines")
  case True
  let ?ol = "or_else oldFileLines []" and ?nl = "or_else newFileLines []"
  let ?s = "hunks_loop True ?ol ?nl (hunks f) 0 builder_init"
  from True assms have "hunks_ascending 0 0 (hunks f)" by simp
  from keys_hunks_loop [OF this keys_init, of True ?ol ?nl] obtain k' bo' bn' where
    "keys_inv k' 0 bo' bn' (map rowId (rows ?s))" "bo' \<le> nextOldLine ?s" "bn' \<le> nextNewLine ?s"
    by auto
  from keys_distinct [OF keys_pushGapLines [OF this]] True
  show ?thesis by (simp add: build_rows_def Let_def)
next
  case False
  from keys_hunks_loop_bare [OF keys_init] obtain k' where
    "keys_inv k' 0 0 0
       (map rowId (rows (hunks_loop False (or_else oldFileLines []) (or_else newFileLines [])
          (hunks f) 0 builder_init)))" by blast
  from keys_distinct [OF this] False
  show ?thesis by (simp add: build_rows_def Let_def)
qed

lemma fit_ascending:
  "hunks_fit M N nextOld nextNew hs \<Longrightarrow> bo \<le> nextOld \<Longrightarrow> bn \<le> nextNew
     \<Longrightarrow> hunks_ascending bo bn hs"
proof (induction hs arbitrary: nextOld nextNew bo bn)
  case Nil
  show ?case by simp
next
  case (Cons h hs)
  from Cons.prems(1) have s: "nextOld \<le> oldStart h" "nextNew \<le> newStart h"
    and r: "hunks_fit M N (oldStart h + oldLines h) (newStart h + newLines h) hs"
    unfolding hunks_fit.simps by blast+
  have "hunks_ascending (max bo (oldStart h)) (max bn (newStart h)) hs"
    by (rule Cons.IH [OF r]) (use s Cons.prems(2,3) in simp_all)
  with s Cons.prems(2,3) show ?case by simp
qed

text \<open>Well-formed hunks are in ascending order.\<close>

lemma well_formed_ascending_from:
  "hunks_well_formed M N nextOld nextNew hs \<Longrightarrow> bo < nextOld \<Longrightarrow> bn < nextNew
     \<Longrightarrow> hunks_ascending bo bn hs"
proof (induction hs arbitrary: nextOld nextNew bo bn)
  case Nil
  show ?case by simp
next
  case (Cons h hs)
  from Cons.prems(1) have f: "side_fits nextOld (oldStart h) (oldLines h)"
      "side_fits nextNew (newStart h) (newLines h)"
    and r: "hunks_well_formed M N (side_next (oldStart h) (oldLines h))
        (side_next (newStart h) (newLines h)) hs"
    unfolding hunks_well_formed.simps by blast+
  from f Cons.prems(2,3) have le: "bo \<le> oldStart h + oldLines h" "bn \<le> newStart h + newLines h"
    by (auto simp: side_fits_def split: if_splits)
  from f Cons.prems(2,3) have lt: "max bo (oldStart h) < side_next (oldStart h) (oldLines h)"
      "max bn (newStart h) < side_next (newStart h) (newLines h)"
    by (auto simp: side_fits_def side_next_def split: if_splits)
  from Cons.IH [OF r lt] le show ?case by simp
qed

lemma well_formed_ascending: "well_formed_hunks M N hs \<Longrightarrow> hunks_ascending 0 0 hs"
  using well_formed_ascending_from [of M N 1 1 hs 0 0] by (simp add: well_formed_hunks_def)


section \<open>The two builders agree\<close>

lemma map_filter_snoc:
  "List.map_filter f (xs @ [x]) = List.map_filter f xs @ (case f x of None \<Rightarrow> [] | Some y \<Rightarrow> [y])"
  by (simp add: List.map_filter_def split: option.splits)

lemma items_snoc:
  "left_items_of (rs @ [r]) = left_items_of rs @ (case left_item_of r of None \<Rightarrow> [] | Some y \<Rightarrow> [y])"
  "right_items_of (rs @ [r]) = right_items_of rs @ (case right_item_of r of None \<Rightarrow> [] | Some y \<Rightarrow> [y])"
  by (simp_all add: left_items_of_def right_items_of_def map_filter_snoc)

lemma columns_push:
  "columns_of (pushContextRow rid t a b s) = pushContextRowC rid t a b (columns_of s)"
  "columns_of (pushRemovedRow rid t a s) = pushRemovedRowC rid t a (columns_of s)"
  "columns_of (pushAddedRow rid t b s) = pushAddedRowC rid t b (columns_of s)"
  by (simp_all add: columns_of_def pushContextRowC_def pushRemovedRowC_def pushAddedRowC_def
        items_snoc Let_def)

lemma columns_gap_step:
  "columns_of (gap_step ol nl os ns oc nc k s) = gap_stepC ol nl os ns oc nc k (columns_of s)"
  by (simp add: gap_step_def gap_stepC_def Let_def columns_push)

lemma columns_gap_loop:
  "columns_of (gap_loop ol nl os ns oc nc mc off s)
     = gap_loopC ol nl os ns oc nc mc off (columns_of s)"
proof (induction ol nl os ns oc nc mc off s rule: gap_loop.induct)
  case (1 ol nl os ns oc nc mc off s)
  show ?case
  proof (cases "int off < mc")
    case True
    with "1.IH" show ?thesis
      by (subst gap_loop.simps, subst gap_loopC.simps) (simp add: columns_gap_step)
  next
    case False
    then show ?thesis by (subst gap_loop.simps, subst gap_loopC.simps) simp
  qed
qed

lemma columns_next [simp]:
  "nextOldLineC (columns_of s) = nextOldLine s" "nextNewLineC (columns_of s) = nextNewLine s"
  "lastOldLineC (columns_of s) = lastOldLine s" "lastNewLineC (columns_of s) = lastNewLine s"
  "connectorsC (columns_of s) = connectors s"
  "leftItems (columns_of s) = left_items_of (rows s)"
  "rightItems (columns_of s) = right_items_of (rows s)"
  by (simp_all add: columns_of_def)

lemma columns_pushGapLines:
  "columns_of (pushGapLines ol nl os oe ns ne s) = pushGapLinesC ol nl os oe ns ne (columns_of s)"
  by (simp add: pushGapLines_def pushGapLinesC_def Let_def columns_gap_loop)

lemma columns_hunk_step:
  "columns_of (fst (hunk_step h ls i s)) = fst (hunk_stepC h ls i (columns_of s))
   \<and> snd (hunk_step h ls i s) = snd (hunk_stepC h ls i (columns_of s))"
  by (simp add: hunk_step_def hunk_stepC_def Let_def columns_of_def items_snoc)

lemma columns_hunk_loop:
  "columns_of (hunk_loop h ls i s) = hunk_loopC h ls i (columns_of s)"
proof (induction h ls i s rule: hunk_loop.induct)
  case (1 h ls i s)
  show ?case
  proof (cases "i < length ls")
    case True
    with "1.IH" columns_hunk_step [of h ls i s] show ?thesis
      by (subst hunk_loop.simps, subst hunk_loopC.simps) simp
  next
    case False
    then show ?thesis by (subst hunk_loop.simps, subst hunk_loopC.simps) simp
  qed
qed

lemma columns_update_next:
  "columns_of (s\<lparr>nextOldLine := a, nextNewLine := b\<rparr>)
     = (columns_of s)\<lparr>nextOldLineC := a, nextNewLineC := b\<rparr>"
  by (simp add: columns_of_def)

lemma columns_do_hunk:
  "columns_of (do_hunk full ol nl hunk k s) = do_hunkC full ol nl hunk k (columns_of s)"
  by (simp add: do_hunk_def do_hunkC_def Let_def columns_update_next columns_hunk_loop
        columns_pushGapLines)

lemma columns_hunks_loop:
  "columns_of (hunks_loop full ol nl hs k s) = hunks_loopC full ol nl hs k (columns_of s)"
  by (induction hs arbitrary: k s) (simp_all add: columns_do_hunk)

lemma columns_init: "columns_of builder_init = builderC_init"
  by (simp add: columns_of_def builder_init_def builderC_init_def left_items_of_def
        right_items_of_def List.map_filter_def)

lemma columns_build:
  "columns_of (build_rows file oldFileLines newFileLines)
     = build_columns file oldFileLines newFileLines"
proof -
  let ?ol = "or_else oldFileLines []" and ?nl = "or_else newFileLines []"
  have h: "columns_of (hunks_loop full ?ol ?nl (hunks file) 0 builder_init)
      = hunks_loopC full ?ol ?nl (hunks file) 0 builderC_init" for full
    by (simp add: columns_hunks_loop columns_init)
  have n: "nextOldLine (hunks_loop full ?ol ?nl (hunks file) 0 builder_init)
        = nextOldLineC (hunks_loopC full ?ol ?nl (hunks file) 0 builderC_init)"
      "nextNewLine (hunks_loop full ?ol ?nl (hunks file) 0 builder_init)
        = nextNewLineC (hunks_loopC full ?ol ?nl (hunks file) 0 builderC_init)" for full
    unfolding h [symmetric] by simp_all
  show ?thesis
    unfolding build_rows_def build_columns_def Let_def
    by (simp add: columns_pushGapLines h n)
qed

lemma raw_ok_snoc_none:
  assumes "raw_ok s" and "row_formed r" and "row_kind r = None"
    and "rows s' = rows s @ [r]" and "connectors s' = connectors s"
  shows "raw_ok s'"
  using assms by (simp add: raw_ok_def map_filter_snoc row_conn_def)

lemma raw_ok_snoc_some:
  assumes "raw_ok s" and "row_formed r" and "row_kind r = Some (conn_kind c)"
    and "startRowId c = rowId r" and "endRowId c = rowId r"
    and "rows s' = rows s @ [r]" and "connectors s' = connectors s @ [c]"
  shows "raw_ok s'"
  using assms by (simp add: raw_ok_def map_filter_snoc row_conn_def conn_tag_def)

lemma raw_ok_push:
  "raw_ok s \<Longrightarrow> raw_ok (pushContextRow rid t a b s)"
  "raw_ok s \<Longrightarrow> raw_ok (pushRemovedRow rid t a s)"
  "raw_ok s \<Longrightarrow> raw_ok (pushAddedRow rid t b s)"
proof -
  assume s: "raw_ok s"
  show "raw_ok (pushContextRow rid t a b s)"
    by (rule raw_ok_snoc_none [OF s _ _ push_rows(1) push_connectors(1)]) simp_all
  show "raw_ok (pushRemovedRow rid t a s)"
    by (rule raw_ok_snoc_some [OF s _ _ _ _ push_rows(2) push_connectors(2)]) simp_all
  show "raw_ok (pushAddedRow rid t b s)"
    by (rule raw_ok_snoc_some [OF s _ _ _ _ push_rows(3) push_connectors(3)]) simp_all
qed

lemma raw_ok_gap_step: "raw_ok s \<Longrightarrow> raw_ok (gap_step ol nl os ns oc nc k s)"
  by (simp add: gap_step_def Let_def raw_ok_push)

lemma raw_ok_gap_fold:
  "raw_ok s \<Longrightarrow> raw_ok (foldl (\<lambda>s k. gap_step ol nl os ns oc nc k s) s ks)"
  by (induction ks arbitrary: s) (simp_all add: raw_ok_gap_step)

lemma raw_ok_pushGapLines: "raw_ok s \<Longrightarrow> raw_ok (pushGapLines ol nl os oe ns ne s)"
  by (simp add: pushGapLines_def Let_def gap_loop_foldl raw_ok_gap_fold)

lemma raw_ok_hunk_step:
  assumes s: "raw_ok s"
  shows "raw_ok (fst (hunk_step h ls i s))"
proof -
  consider (ctx) "type (ls ! i) = Context"
    | (ra) "type (ls ! i) = Removed" "i + 1 < length ls" "type (ls ! (i + 1)) = Added"
    | (ar) "type (ls ! i) = Added" "i + 1 < length ls" "type (ls ! (i + 1)) = Removed"
    | (r) "type (ls ! i) = Removed" "\<not> (i + 1 < length ls \<and> type (ls ! (i + 1)) = Added)"
    | (a) "type (ls ! i) = Added" "\<not> (i + 1 < length ls \<and> type (ls ! (i + 1)) = Removed)"
    by (cases "type (ls ! i)") auto
  then show ?thesis
  proof cases
    case ctx
    show ?thesis
      by (rule raw_ok_snoc_none [OF s, where r = "\<lparr>rowId = ''context-'' @ show_nat h @ ''-'' @ show_nat i,
              left = LCell LContext (ls ! i), right = RCell RContext (ls ! i) None\<rparr>"])
         (use ctx in \<open>simp_all add: hunk_step_def Let_def\<close>)
  next
    case ra
    show ?thesis
      by (rule raw_ok_snoc_some [OF s, where r = "\<lparr>rowId = ''change-'' @ show_nat h @ ''-'' @ show_nat i,
              left = LCell LChange (ls ! i), right = RCell RChange (ls ! (i + 1)) None\<rparr>"
            and c = "ChangeConn (''change-'' @ show_nat h @ ''-'' @ show_nat i)
                       (''change-'' @ show_nat h @ ''-'' @ show_nat i)"])
         (use ra in \<open>simp_all add: hunk_step_def Let_def\<close>)
  next
    case ar
    show ?thesis
      by (rule raw_ok_snoc_some [OF s, where r = "\<lparr>rowId = ''change-'' @ show_nat h @ ''-'' @ show_nat i,
              left = LCell LChange (ls ! (i + 1)), right = RCell RChange (ls ! i) None\<rparr>"
            and c = "ChangeConn (''change-'' @ show_nat h @ ''-'' @ show_nat i)
                       (''change-'' @ show_nat h @ ''-'' @ show_nat i)"])
         (use ar in \<open>simp_all add: hunk_step_def Let_def\<close>)
  next
    case r
    show ?thesis
      by (rule raw_ok_snoc_some [OF s, where r = "\<lparr>rowId = ''removed-'' @ show_nat h @ ''-'' @ show_nat i,
              left = LCell LRemoved (ls ! i), right = RSpacer\<rparr>"
            and c = "RemovedConn (''removed-'' @ show_nat h @ ''-'' @ show_nat i)
                       (''removed-'' @ show_nat h @ ''-'' @ show_nat i) (or_null (lastNewLine s))"])
         (use r in \<open>auto simp: hunk_step_def Let_def\<close>)
  next
    case a
    show ?thesis
      by (rule raw_ok_snoc_some [OF s, where r = "\<lparr>rowId = ''added-'' @ show_nat h @ ''-'' @ show_nat i,
              left = LSpacer, right = RCell RAdded (ls ! i) (or_null (lastOldLine s))\<rparr>"
            and c = "AddedConn (''added-'' @ show_nat h @ ''-'' @ show_nat i)
                       (''added-'' @ show_nat h @ ''-'' @ show_nat i) (or_null (lastOldLine s))"])
         (use a in \<open>auto simp: hunk_step_def Let_def\<close>)
  qed
qed

lemma raw_ok_hunk_loop: "raw_ok s \<Longrightarrow> raw_ok (hunk_loop h ls i s)"
proof (induction h ls i s rule: hunk_loop.induct)
  case (1 h ls i s)
  show ?case
  proof (cases "i < length ls")
    case True
    with "1.IH" raw_ok_hunk_step [OF "1.prems", of h ls i] show ?thesis
      by (subst hunk_loop.simps) simp
  next
    case False
    with "1.prems" show ?thesis by (subst hunk_loop.simps) simp
  qed
qed

lemma raw_ok_next [simp]: "raw_ok (s\<lparr>nextOldLine := a, nextNewLine := b\<rparr>) = raw_ok s"
  by (simp add: raw_ok_def)

lemma raw_ok_do_hunk: "raw_ok s \<Longrightarrow> raw_ok (do_hunk full ol nl hunk k s)"
  by (simp add: do_hunk_def Let_def raw_ok_hunk_loop raw_ok_pushGapLines)

lemma raw_ok_hunks_loop: "raw_ok s \<Longrightarrow> raw_ok (hunks_loop full ol nl hs k s)"
  by (induction hs arbitrary: k s) (simp_all add: raw_ok_do_hunk)

lemma raw_ok_build: "raw_ok (build_rows file oldFileLines newFileLines)"
proof -
  have "raw_ok builder_init"
    by (simp add: raw_ok_def builder_init_def List.map_filter_def)
  then show ?thesis
    by (simp add: build_rows_def Let_def raw_ok_hunks_loop raw_ok_pushGapLines)
qed

subsection \<open>Index maps\<close>

lemma index_map_snoc: "index_map (ids @ [y]) = (index_map ids)(y \<mapsto> length ids)"
  by (simp add: index_map_def enumerate_append_eq)

lemma index_map_notin: "x \<notin> set ids \<Longrightarrow> index_map ids x = None"
proof (induction ids rule: rev_induct)
  case Nil
  show ?case by (simp add: index_map_def)
next
  case (snoc y ids)
  then show ?case by (simp add: index_map_snoc)
qed

lemma index_map_at: "x \<notin> set post \<Longrightarrow> index_map (pre @ x # post) x = Some (length pre)"
proof (induction post rule: rev_induct)
  case Nil
  show ?case by (simp add: index_map_snoc)
next
  case (snoc y post)
  have "pre @ x # post @ [y] = (pre @ x # post) @ [y]" by simp
  with snoc show ?case by (simp only: index_map_snoc) auto
qed

lemma map_filter_append:
  "List.map_filter f (xs @ ys) = List.map_filter f xs @ List.map_filter f ys"
  by (simp add: List.map_filter_def)

lemma map_filter_Cons:
  "List.map_filter f (x # xs) = (case f x of None \<Rightarrow> [] | Some y \<Rightarrow> [y]) @ List.map_filter f xs"
  by (simp add: List.map_filter_def split: option.splits)

text \<open>The index of a row's key in the map made from a sublist of the rows.\<close>

lemma index_map_sub:
  assumes d: "distinct (map key (pre @ a # rest))"
    and g: "g a = Some y"
    and k: "\<And>r z. g r = Some z \<Longrightarrow> key' z = key r"
  shows "index_map (map key' (List.map_filter g (pre @ a # rest))) (key a)
           = Some (length (List.map_filter g pre))"
proof -
  have keys: "set (map key' (List.map_filter g rs)) \<subseteq> set (map key rs)" for rs
    by (auto simp: List.map_filter_def dest: k) (metis k imageI option.collapse)
  from d have "key a \<notin> set (map key rest)" by simp
  with keys [of rest] have notin: "key a \<notin> set (map key' (List.map_filter g rest))" by blast
  have "map key' (List.map_filter g (pre @ a # rest))
      = map key' (List.map_filter g pre) @ key a # map key' (List.map_filter g rest)"
    using g k [OF g] by (simp add: map_filter_append map_filter_Cons)
  with index_map_at [OF notin, of "map key' (List.map_filter g pre)"] show ?thesis by simp
qed

lemma index_map_rows:
  assumes "distinct (map key (pre @ a # rest))"
  shows "index_map (map key (pre @ a # rest)) (key a) = Some (length pre)"
proof -
  from assms have "key a \<notin> set (map key rest)" by simp
  from index_map_at [OF this, of "map key pre"] show ?thesis by simp
qed

subsection \<open>Neighbours in a filtered list\<close>

lemma map_filter_first:
  "List.map_filter f xs = v # ys \<Longrightarrow>
   \<exists>mid b x2. xs = mid @ b # x2 \<and> (\<forall>m \<in> set mid. f m = None) \<and> f b = Some v
      \<and> List.map_filter f x2 = ys"
proof (induction xs)
  case Nil
  then show ?case by (simp add: List.map_filter_def)
next
  case (Cons x xs)
  show ?case
  proof (cases "f x")
    case None
    with Cons.prems have "List.map_filter f xs = v # ys" by (simp add: map_filter_Cons)
    from Cons.IH [OF this] obtain mid b x2 where
      "xs = mid @ b # x2" "\<forall>m \<in> set mid. f m = None" "f b = Some v" "List.map_filter f x2 = ys"
      by blast
    with None have "x # xs = (x # mid) @ b # x2 \<and> (\<forall>m \<in> set (x # mid). f m = None) \<and> f b = Some v
        \<and> List.map_filter f x2 = ys" by simp
    then show ?thesis by blast
  next
    case (Some w)
    with Cons.prems have "w = v" "List.map_filter f xs = ys" by (simp_all add: map_filter_Cons)
    with Some have "x # xs = [] @ x # xs \<and> (\<forall>m \<in> set []. f m = None) \<and> f x = Some v
        \<and> List.map_filter f xs = ys" by simp
    then show ?thesis by blast
  qed
qed

lemma map_filter_adjacent:
  "List.map_filter f xs = ys1 @ u # v # ys2 \<Longrightarrow>
   \<exists>x1 a mid b x2. xs = x1 @ a # mid @ b # x2 \<and> f a = Some u \<and> f b = Some v
      \<and> (\<forall>m \<in> set mid. f m = None)"
proof (induction ys1 arbitrary: xs)
  case Nil
  then have "List.map_filter f xs = u # v # ys2" by simp
  from map_filter_first [OF this] obtain x1 a r where
    xs: "xs = x1 @ a # r" and a: "f a = Some u" and r: "List.map_filter f r = v # ys2"
    by blast
  from map_filter_first [OF r] obtain mid b x2 where
    "r = mid @ b # x2" "\<forall>m \<in> set mid. f m = None" "f b = Some v"
    by blast
  with xs a show ?case by blast
next
  case (Cons w ys1)
  then have "List.map_filter f xs = w # (ys1 @ u # v # ys2)" by simp
  from map_filter_first [OF this] obtain p c r where
    xs: "xs = p @ c # r" and r: "List.map_filter f r = ys1 @ u # v # ys2"
    by blast
  from Cons.IH [OF r] obtain x1 a mid b x2 where
    "r = x1 @ a # mid @ b # x2" "f a = Some u" "f b = Some v" "\<forall>m \<in> set mid. f m = None"
    by blast
  with xs have "xs = (p @ c # x1) @ a # mid @ b # x2 \<and> f a = Some u \<and> f b = Some v
      \<and> (\<forall>m \<in> set mid. f m = None)" by simp
  then show ?case by blast
qed

subsection \<open>The two grouping passes\<close>

lemma conn_kind_simps [simp]:
  "is_change c = (conn_kind c = KChange)"
  "is_added c = (conn_kind c = KAdded)"
  "is_removed c = (conn_kind c = KRemoved)"
  by (cases c; simp)+

lemma set_endRowId_simps [simp]:
  "conn_kind (set_endRowId e c) = conn_kind c"
  "endRowId (set_endRowId e c) = e"
  "startRowId (set_endRowId e c) = startRowId c"
  by (cases c; simp)+

lemma group_step_last:
  "group_step M G c \<noteq> []
   \<and> endRowId (last (group_step M G c)) = endRowId c
   \<and> conn_kind (last (group_step M G c)) = conn_kind c"
  by (auto simp: group_step_def Let_def)

lemma group_fold_last:
  "cs \<noteq> [] \<Longrightarrow>
   foldl (group_step M) G cs \<noteq> []
   \<and> endRowId (last (foldl (group_step M) G cs)) = endRowId (last cs)
   \<and> conn_kind (last (foldl (group_step M) G cs)) = conn_kind (last cs)"
proof (induction cs rule: rev_induct)
  case Nil
  then show ?case by simp
next
  case (snoc c cs)
  show ?case using group_step_last [of M "foldl (group_step M) G cs" c] by simp
qed

lemma step_agree:
  assumes "G \<noteq> [] \<Longrightarrow> conn_kind (last G) = conn_kind c \<Longrightarrow>
      (get_index M (startRowId c) = get_index M (endRowId (last G)) + 1)
      = (get_index (if conn_kind c = KRemoved then LM else RM) (startRowId c)
           = get_index (if conn_kind c = KRemoved then LM else RM) (endRowId (last G)) + 1)"
  shows "group_step M G c = group_stepC LM RM G c"
proof (cases "G = []")
  case True
  then show ?thesis by (simp add: group_step_def group_stepC_def)
next
  case False
  show ?thesis
  proof (cases "conn_kind (last G) = conn_kind c")
    case True
    from assms [OF False True] True False show ?thesis
      by (cases "conn_kind c") (simp_all add: group_step_def group_stepC_def Let_def)
  next
    case False
    then show ?thesis
      by (cases "conn_kind c"; cases "conn_kind (last G)")
         (simp_all add: group_step_def group_stepC_def Let_def)
  qed
qed

lemma map_filter_all_length:
  "\<forall>m \<in> set xs. f m \<noteq> None \<Longrightarrow> length (List.map_filter f xs) = length xs"
  by (induction xs) (auto simp: map_filter_Cons)

lemma context_row_items:
  "row_formed m \<Longrightarrow> row_conn m = None \<Longrightarrow> left_item_of m \<noteq> None \<and> right_item_of m \<noteq> None"
  by (auto simp: row_conn_def split: LeftCell.splits RightCell.splits LeftKind.splits
        RightKind.splits)

lemma removed_row_item: "row_kind a = Some KRemoved \<Longrightarrow> left_item_of a \<noteq> None"
  by (auto split: LeftCell.splits RightCell.splits LeftKind.splits RightKind.splits)

lemma other_row_item:
  "row_kind a = Some K \<Longrightarrow> K \<noteq> KRemoved \<Longrightarrow> right_item_of a \<noteq> None"
  by (auto split: LeftCell.splits RightCell.splits LeftKind.splits RightKind.splits)

lemma item_keys:
  "left_item_of r = Some z \<Longrightarrow> l_rowId z = rowId r"
  "right_item_of r = Some w \<Longrightarrow> r_rowId w = rowId r"
  by (auto split: LeftCell.splits RightCell.splits)

lemma consec_side:
  assumes d: "distinct (map rowId (x1 @ a # mid @ b # x2))"
    and ga: "g a \<noteq> None" and gb: "g b \<noteq> None"
    and gm: "\<forall>m \<in> set mid. g m \<noteq> None"
    and k: "\<And>r z. g r = Some z \<Longrightarrow> key' z = rowId r"
  shows "(get_index (index_map (map key' (List.map_filter g (x1 @ a # mid @ b # x2)))) (rowId b)
          = get_index (index_map (map key' (List.map_filter g (x1 @ a # mid @ b # x2)))) (rowId a) + 1)
         = (mid = [])"
proof -
  let ?R = "x1 @ a # mid @ b # x2"
  from ga obtain ya where ya: "g a = Some ya" by auto
  from gb obtain yb where yb: "g b = Some yb" by auto
  have ia: "index_map (map key' (List.map_filter g ?R)) (rowId a)
      = Some (length (List.map_filter g x1))"
    by (rule index_map_sub [where key = rowId and g = g and key' = key' and pre = x1 and a = a
          and rest = "mid @ b # x2", OF d ya k])
  have R2: "?R = (x1 @ a # mid) @ b # x2" by simp
  have ib: "index_map (map key' (List.map_filter g ?R)) (rowId b)
      = Some (length (List.map_filter g (x1 @ a # mid)))"
    unfolding R2
    by (rule index_map_sub [where key = rowId and g = g and key' = key' and pre = "x1 @ a # mid"
          and a = b and rest = x2, OF d [unfolded R2] yb k])
  have "length (List.map_filter g (x1 @ a # mid))
      = length (List.map_filter g x1) + 1 + length mid"
    using ya map_filter_all_length [OF gm] by (simp add: map_filter_append map_filter_Cons)
  with ia ib show ?thesis by (simp add: get_index_def)
qed

lemma consec_rows:
  assumes d: "distinct (map rowId (x1 @ a # mid @ b # x2))"
  shows "(get_index (index_map (map rowId (x1 @ a # mid @ b # x2))) (rowId b)
          = get_index (index_map (map rowId (x1 @ a # mid @ b # x2))) (rowId a) + 1)
         = (mid = [])"
proof -
  let ?R = "x1 @ a # mid @ b # x2"
  have ia: "index_map (map rowId ?R) (rowId a) = Some (length x1)"
    by (rule index_map_rows [OF d])
  have R2: "?R = (x1 @ a # mid) @ b # x2" by simp
  have ib: "index_map (map rowId ?R) (rowId b) = Some (length (x1 @ a # mid))"
    unfolding R2 by (rule index_map_rows [OF d [unfolded R2]])
  from ia ib show ?thesis by (simp add: get_index_def)
qed

lemma folds_agree:
  assumes d: "distinct (map rowId R)"
    and formed: "\<forall>r \<in> set R. row_formed r"
    and tags: "map conn_tag C = List.map_filter row_conn R"
    and ends: "\<forall>c \<in> set C. endRowId c = startRowId c"
  shows "C = cs @ rest \<Longrightarrow>
         foldl (group_step (index_map (map rowId R))) [] cs
           = foldl (group_stepC (index_map (map l_rowId (left_items_of R)))
                                (index_map (map r_rowId (right_items_of R)))) [] cs"
proof (induction cs arbitrary: rest rule: rev_induct)
  case Nil
  show ?case by simp
next
  case (snoc c cs)
  let ?M = "index_map (map rowId R)"
  let ?LM = "index_map (map l_rowId (left_items_of R))"
  let ?RM = "index_map (map r_rowId (right_items_of R))"
  let ?G = "foldl (group_step ?M) [] cs"
  from snoc.prems have C: "C = cs @ (c # rest)" by simp
  from snoc.IH [OF C] have IH: "?G = foldl (group_stepC ?LM ?RM) [] cs" .
  have "group_step ?M ?G c = group_stepC ?LM ?RM ?G c"
  proof (rule step_agree)
    assume G: "?G \<noteq> []" and kind: "conn_kind (last ?G) = conn_kind c"
    from G have cs: "cs \<noteq> []" by auto
    then obtain cs' c' where cs': "cs = cs' @ [c']" by (metis rev_exhaust)
    from group_fold_last [OF cs, of ?M "[]"] cs'
    have lastG: "endRowId (last ?G) = endRowId c'" "conn_kind (last ?G) = conn_kind c'" by simp_all
    from C cs' have C': "C = cs' @ c' # c # rest" by simp
    with ends have e: "endRowId c' = startRowId c'" by simp
    from tags C' have "List.map_filter row_conn R
        = map conn_tag cs' @ conn_tag c' # conn_tag c # map conn_tag rest" by simp
    from map_filter_adjacent [OF this] obtain x1 a mid b x2 where
      R: "R = x1 @ a # mid @ b # x2" and a: "row_conn a = Some (conn_tag c')"
      and b: "row_conn b = Some (conn_tag c)" and mid: "\<forall>m \<in> set mid. row_conn m = None"
      by blast
    from a b have ida: "rowId a = startRowId c'" and idb: "rowId b = startRowId c"
      and ka: "row_kind a = Some (conn_kind c')" and kb: "row_kind b = Some (conn_kind c)"
      by (auto simp: row_conn_def conn_tag_def)
    from formed R mid have items: "\<forall>m \<in> set mid. left_item_of m \<noteq> None"
        "\<forall>m \<in> set mid. right_item_of m \<noteq> None"
      using context_row_items by auto
    have rows: "(get_index ?M (rowId b) = get_index ?M (rowId a) + 1) = (mid = [])"
      unfolding R by (rule consec_rows [OF d [unfolded R]])
    have side: "(get_index (if conn_kind c = KRemoved then ?LM else ?RM) (rowId b)
          = get_index (if conn_kind c = KRemoved then ?LM else ?RM) (rowId a) + 1) = (mid = [])"
    proof (cases "conn_kind c = KRemoved")
      case True
      with ka kb kind lastG have "row_kind a = Some KRemoved" "row_kind b = Some KRemoved"
        by (simp_all del: row_kind.simps)
      then have "left_item_of a \<noteq> None" "left_item_of b \<noteq> None"
        using removed_row_item by blast+
      then have "(get_index (index_map (map l_rowId (List.map_filter left_item_of
                (x1 @ a # mid @ b # x2)))) (rowId b)
          = get_index (index_map (map l_rowId (List.map_filter left_item_of
                (x1 @ a # mid @ b # x2)))) (rowId a) + 1) = (mid = [])"
        by (rule consec_side [where g = left_item_of and key' = l_rowId,
              OF d [unfolded R] _ _ items(1) item_keys(1)])
      with True show ?thesis unfolding R left_items_of_def by (simp del: left_item_of.simps right_item_of.simps)
    next
      case False
      with ka kb kind lastG have "row_kind a = Some (conn_kind c)" "row_kind b = Some (conn_kind c)"
        by (simp_all del: row_kind.simps)
      then have "right_item_of a \<noteq> None" "right_item_of b \<noteq> None"
        using False other_row_item by blast+
      then have "(get_index (index_map (map r_rowId (List.map_filter right_item_of
                (x1 @ a # mid @ b # x2)))) (rowId b)
          = get_index (index_map (map r_rowId (List.map_filter right_item_of
                (x1 @ a # mid @ b # x2)))) (rowId a) + 1) = (mid = [])"
        by (rule consec_side [where g = right_item_of and key' = r_rowId,
              OF d [unfolded R] _ _ items(2) item_keys(2)])
      with False show ?thesis unfolding R right_items_of_def by (simp del: left_item_of.simps right_item_of.simps)
    qed
    from rows side show "(get_index ?M (startRowId c) = get_index ?M (endRowId (last ?G)) + 1)
      = (get_index (if conn_kind c = KRemoved then ?LM else ?RM) (startRowId c)
           = get_index (if conn_kind c = KRemoved then ?LM else ?RM) (endRowId (last ?G)) + 1)"
      unfolding lastG e ida [symmetric] idb [symmetric] by simp
  qed
  with IH show ?case by simp
qed

lemma columns_agree:
  "leftItems (build_columns file oldFileLines newFileLines)
     = left_items_of (rows (build_rows file oldFileLines newFileLines))"
  "rightItems (build_columns file oldFileLines newFileLines)
     = right_items_of (rows (build_rows file oldFileLines newFileLines))"
  "connectorsC (build_columns file oldFileLines newFileLines)
     = connectors (build_rows file oldFileLines newFileLines)"
  unfolding columns_build [symmetric] by simp_all

lemma grouped_agree:
  assumes d: "distinct (map rowId (rows (build_rows file oldFileLines newFileLines)))"
  shows "snd (snd (buildColumns file oldFileLines newFileLines))
           = snd (buildVisualRows file oldFileLines newFileLines)"
proof -
  let ?s = "build_rows file oldFileLines newFileLines"
  have ok: "raw_ok ?s" by (rule raw_ok_build)
  have "foldl (group_step (index_map (map rowId (rows ?s)))) [] (connectors ?s)
      = foldl (group_stepC (index_map (map l_rowId (left_items_of (rows ?s))))
                           (index_map (map r_rowId (right_items_of (rows ?s))))) []
          (connectors ?s)"
  proof (rule folds_agree [OF d, where C = "connectors ?s" and rest = "[]"])
    show "\<forall>r \<in> set (rows ?s). row_formed r" using ok by (simp add: raw_ok_def)
    show "map conn_tag (connectors ?s) = List.map_filter row_conn (rows ?s)"
      using ok by (simp add: raw_ok_def)
    show "\<forall>c \<in> set (connectors ?s). endRowId c = startRowId c"
      using ok by (simp add: raw_ok_def)
    show "connectors ?s = connectors ?s @ []" by simp
  qed
  then show ?thesis
    unfolding buildColumns_def buildVisualRows_def Let_def
    by (simp add: columns_agree)
qed




section \<open>Connector grouping\<close>

text \<open>A grouping step, in the words of the specification.\<close>

lemma group_step_merges:
  "group_step M G c =
     (if G \<noteq> [] \<and> merges M (last G) c
      then butlast G @ [set_endRowId (endRowId c) (last G)]
      else G @ [c])"
proof (cases "G = []")
  case True
  then show ?thesis by (simp add: group_step_def)
next
  case False
  then show ?thesis
    by (cases c; cases "last G") (auto simp: group_step_def merges_def Let_def)
qed

lemma group_stepC_merges:
  "group_stepC LM RM G c =
     (if G \<noteq> [] \<and> merges (if conn_kind c = KRemoved \<or> conn_kind (last G) = KRemoved
                                   then LM else RM) (last G) c
      then butlast G @ [set_endRowId (endRowId c) (last G)]
      else G @ [c])"
proof (cases "G = []")
  case True
  then show ?thesis by (simp add: group_stepC_def)
next
  case False
  then show ?thesis
    by (cases c; cases "last G") (auto simp: group_stepC_def merges_def Let_def)
qed

lemma hunk_step_added_row:
  assumes "i < length ls" and "type (ls ! i) = Added"
    and "i + 1 < length ls \<longrightarrow> type (ls ! (i + 1)) \<noteq> Removed"
  shows "hunk_step h ls i s =
     (s\<lparr>rows := rows s @ [\<lparr>rowId = added_id h i, left = LSpacer,
                           right = RCell RAdded (ls ! i) (or_null (lastOldLine s))\<rparr>],
        connectors := connectors s @ [AddedConn (added_id h i) (added_id h i) (or_null (lastOldLine s))],
        lastNewLine := or_else (newLineNumber (ls ! i)) (lastNewLine s)\<rparr>, i)"
  using assms by (auto simp: hunk_step_def Let_def added_id_def)

text \<open>
  Added lines of a hunk become added rows: \<open>N\<close> added lines from position \<open>i\<close> of the loop
  on that are not followed by a removed line give \<open>N\<close> added rows, one after the other.
\<close>

lemma hunk_loop_run:
  assumes "\<forall>j < N. type (ls ! (i + j)) = Added" and "i + N \<le> length ls"
    and "i + N < length ls \<longrightarrow> type (ls ! (i + N)) \<noteq> Removed"
  shows "\<exists>s' run. hunk_loop h ls i s = hunk_loop h ls (i + N) s'
           \<and> rows s' = rows s @ run
           \<and> map rowId run = map (added_id h) [i..<i + N]
           \<and> (\<forall>r \<in> set run. row_kind r = Some KAdded)"
  using assms
proof (induction N arbitrary: i s)
  case 0
  have "hunk_loop h ls i s = hunk_loop h ls (i + 0) s \<and> rows s = rows s @ []
      \<and> map rowId [] = map (added_id h) [i..<i + 0]
      \<and> (\<forall>r \<in> set ([] :: VisualRow list). row_kind r = Some KAdded)" by simp
  then show ?case by blast
next
  case (Suc N)
  from Suc.prems have i: "i < length ls" and t: "type (ls ! i) = Added" by auto
  have nx: "i + 1 < length ls \<longrightarrow> type (ls ! (i + 1)) \<noteq> Removed"
  proof (cases N)
    case 0
    with Suc.prems(3) show ?thesis by simp
  next
    case (Suc m)
    then have "1 < Suc N" by simp
    with Suc.prems(1) have "type (ls ! (i + 1)) = Added" by blast
    then show ?thesis by simp
  qed
  note st = hunk_step_added_row [OF i t nx, of h s]
  let ?s1 = "fst (hunk_step h ls i s)"
  let ?row = "\<lparr>rowId = added_id h i, left = LSpacer,
               right = RCell RAdded (ls ! i) (or_null (lastOldLine s))\<rparr>"
  have l: "hunk_loop h ls i s = hunk_loop h ls (i + 1) ?s1"
    by (subst hunk_loop.simps) (simp add: i st)
  have a: "\<forall>j < N. type (ls ! (i + 1 + j)) = Added"
  proof (intro allI impI)
    fix j assume "j < N"
    with Suc.prems(1) have "type (ls ! (i + Suc j)) = Added" by (metis Suc_less_eq)
    then show "type (ls ! (i + 1 + j)) = Added" by simp
  qed
  from Suc.prems have b: "i + 1 + N \<le> length ls"
    and c: "i + 1 + N < length ls \<longrightarrow> type (ls ! (i + 1 + N)) \<noteq> Removed" by simp_all
  from Suc.IH [OF a b c, of ?s1] obtain s' run where
    s': "hunk_loop h ls (i + 1) ?s1 = hunk_loop h ls (i + 1 + N) s'"
      "rows s' = rows ?s1 @ run"
      "map rowId run = map (added_id h) [i + 1..<i + 1 + N]"
      "\<forall>r \<in> set run. row_kind r = Some KAdded"
    by blast
  have up: "[i..<i + Suc N] = i # [i + 1..<i + 1 + N]" by (simp add: upt_conv_Cons)
  have "hunk_loop h ls i s = hunk_loop h ls (i + Suc N) s'
      \<and> rows s' = rows s @ (?row # run)
      \<and> map rowId (?row # run) = map (added_id h) [i..<i + Suc N]
      \<and> (\<forall>r \<in> set (?row # run). row_kind r = Some KAdded)"
    using l s' unfolding up by (simp add: st)
  then show ?case by blast
qed

subsection \<open>The connectors are those of the rows\<close>

lemma raw_connectors_snoc:
  "raw_connectors so sn (rs @ [r])
     = raw_connectors so sn rs
       @ (case row_connector (foldl seen_old so rs) (foldl seen_new sn rs) r of
            None \<Rightarrow> [] | Some c \<Rightarrow> [c])"
  by (induction rs arbitrary: so sn) simp_all

lemma scan_ok_snoc:
  assumes "scan_ok s" and "rows s' = rows s @ [r]"
    and "connectors s' = connectors s
           @ (case row_connector (lastOldLine s) (lastNewLine s) r of None \<Rightarrow> [] | Some c \<Rightarrow> [c])"
    and "lastOldLine s' = seen_old (lastOldLine s) r"
    and "lastNewLine s' = seen_new (lastNewLine s) r"
  shows "scan_ok s'"
  using assms by (simp add: scan_ok_def raw_connectors_snoc)

lemma scan_ok_push:
  "scan_ok s \<Longrightarrow> scan_ok (pushContextRow rid t a b s)"
  "scan_ok s \<Longrightarrow> scan_ok (pushRemovedRow rid t a s)"
  "scan_ok s \<Longrightarrow> scan_ok (pushAddedRow rid t b s)"
proof -
  assume s: "scan_ok s"
  show "scan_ok (pushContextRow rid t a b s)"
    by (rule scan_ok_snoc [OF s push_rows(1)])
       (simp_all add: row_connector_def seen_old_def seen_new_def or_else_def)
  show "scan_ok (pushRemovedRow rid t a s)"
    by (rule scan_ok_snoc [OF s push_rows(2)])
       (simp_all add: row_connector_def seen_old_def seen_new_def or_else_def)
  show "scan_ok (pushAddedRow rid t b s)"
    by (rule scan_ok_snoc [OF s push_rows(3)])
       (simp_all add: row_connector_def seen_old_def seen_new_def or_else_def)
qed

lemma scan_ok_gap_step: "scan_ok s \<Longrightarrow> scan_ok (gap_step ol nl os ns oc nc k s)"
  by (simp add: gap_step_def Let_def scan_ok_push)

lemma scan_ok_gap_fold:
  "scan_ok s \<Longrightarrow> scan_ok (foldl (\<lambda>s k. gap_step ol nl os ns oc nc k s) s ks)"
  by (induction ks arbitrary: s) (simp_all add: scan_ok_gap_step)

lemma scan_ok_pushGapLines: "scan_ok s \<Longrightarrow> scan_ok (pushGapLines ol nl os oe ns ne s)"
  by (simp add: pushGapLines_def Let_def gap_loop_foldl scan_ok_gap_fold)

lemma scan_ok_hunk_step:
  assumes s: "scan_ok s"
  shows "scan_ok (fst (hunk_step h ls i s))"
proof -
  consider (ctx) "type (ls ! i) = Context"
    | (ra) "type (ls ! i) = Removed" "i + 1 < length ls" "type (ls ! (i + 1)) = Added"
    | (ar) "type (ls ! i) = Added" "i + 1 < length ls" "type (ls ! (i + 1)) = Removed"
    | (r) "type (ls ! i) = Removed" "\<not> (i + 1 < length ls \<and> type (ls ! (i + 1)) = Added)"
    | (a) "type (ls ! i) = Added" "\<not> (i + 1 < length ls \<and> type (ls ! (i + 1)) = Removed)"
    by (cases "type (ls ! i)") auto
  then show ?thesis
  proof cases
    case ctx
    show ?thesis
      by (rule scan_ok_snoc [OF s, where r = "\<lparr>rowId = ''context-'' @ show_nat h @ ''-'' @ show_nat i,
              left = LCell LContext (ls ! i), right = RCell RContext (ls ! i) None\<rparr>"])
         (use ctx in \<open>simp_all add: hunk_step_def Let_def row_connector_def seen_old_def seen_new_def\<close>)
  next
    case ra
    show ?thesis
      by (rule scan_ok_snoc [OF s, where r = "\<lparr>rowId = ''change-'' @ show_nat h @ ''-'' @ show_nat i,
              left = LCell LChange (ls ! i), right = RCell RChange (ls ! (i + 1)) None\<rparr>"])
         (use ra in \<open>simp_all add: hunk_step_def Let_def row_connector_def seen_old_def seen_new_def\<close>)
  next
    case ar
    show ?thesis
      by (rule scan_ok_snoc [OF s, where r = "\<lparr>rowId = ''change-'' @ show_nat h @ ''-'' @ show_nat i,
              left = LCell LChange (ls ! (i + 1)), right = RCell RChange (ls ! i) None\<rparr>"])
         (use ar in \<open>simp_all add: hunk_step_def Let_def row_connector_def seen_old_def seen_new_def\<close>)
  next
    case r
    show ?thesis
      by (rule scan_ok_snoc [OF s, where r = "\<lparr>rowId = ''removed-'' @ show_nat h @ ''-'' @ show_nat i,
              left = LCell LRemoved (ls ! i), right = RSpacer\<rparr>"])
         (use r in \<open>auto simp: hunk_step_def Let_def row_connector_def seen_old_def seen_new_def\<close>)
  next
    case a
    show ?thesis
      by (rule scan_ok_snoc [OF s, where r = "\<lparr>rowId = ''added-'' @ show_nat h @ ''-'' @ show_nat i,
              left = LSpacer, right = RCell RAdded (ls ! i) (or_null (lastOldLine s))\<rparr>"])
         (use a in \<open>auto simp: hunk_step_def Let_def row_connector_def seen_old_def seen_new_def\<close>)
  qed
qed

lemma scan_ok_hunk_loop: "scan_ok s \<Longrightarrow> scan_ok (hunk_loop h ls i s)"
proof (induction h ls i s rule: hunk_loop.induct)
  case (1 h ls i s)
  show ?case
  proof (cases "i < length ls")
    case True
    with "1.IH" scan_ok_hunk_step [OF "1.prems", of h ls i] show ?thesis
      by (subst hunk_loop.simps) simp
  next
    case False
    with "1.prems" show ?thesis by (subst hunk_loop.simps) simp
  qed
qed

lemma scan_ok_next [simp]: "scan_ok (s\<lparr>nextOldLine := a, nextNewLine := b\<rparr>) = scan_ok s"
  by (simp add: scan_ok_def)

lemma scan_ok_do_hunk: "scan_ok s \<Longrightarrow> scan_ok (do_hunk full ol nl hunk k s)"
  by (simp add: do_hunk_def Let_def scan_ok_hunk_loop scan_ok_pushGapLines)

lemma scan_ok_hunks_loop: "scan_ok s \<Longrightarrow> scan_ok (hunks_loop full ol nl hs k s)"
  by (induction hs arbitrary: k s) (simp_all add: scan_ok_do_hunk)

lemma scan_ok_build: "scan_ok (build_rows file oldFileLines newFileLines)"
proof -
  have "scan_ok builder_init"
    by (simp add: scan_ok_def builder_init_def)
  then show ?thesis
    by (simp add: build_rows_def Let_def scan_ok_hunks_loop scan_ok_pushGapLines)
qed

subsection \<open>The grouping pass and the runs of rows\<close>

lemma row_connector_ids:
  "row_connector so sn r = Some d \<Longrightarrow> startRowId d = rowId r \<and> endRowId d = rowId r
     \<and> row_kind r = Some (conn_kind d)"
  by (auto simp: row_connector_def split: option.splits ConnKind.splits)

lemma merges_same_run:
  "merges M c d = (same_run c d \<and> get_index M (startRowId d) = get_index M (endRowId c) + 1)"
  by (auto simp: merges_def same_run_def)

lemma consec_last:
  assumes d: "distinct (map rowId (R1 @ r # R2))" and n: "R1 \<noteq> []"
  shows "get_index (index_map (map rowId (R1 @ r # R2))) (rowId r)
           = get_index (index_map (map rowId (R1 @ r # R2))) (rowId (last R1)) + 1"
proof -
  from n have R1: "R1 = butlast R1 @ [last R1]" by simp
  have e: "R1 @ r # R2 = butlast R1 @ last R1 # [] @ r # R2" using R1 by (metis append.assoc append_Cons append_Nil)
  from consec_rows [of "butlast R1" "last R1" "[]" r R2] d show ?thesis
    unfolding e [symmetric] by simp
qed

lemma consec_gap:
  assumes d: "distinct (map rowId ((x1 @ a # mid) @ r # R2))" and n: "mid \<noteq> []"
  shows "get_index (index_map (map rowId ((x1 @ a # mid) @ r # R2))) (rowId r)
           \<noteq> get_index (index_map (map rowId ((x1 @ a # mid) @ r # R2))) (rowId a) + 1"
  using consec_rows [of x1 a mid r R2] d n by simp

lemma fold_runs:
  assumes "distinct (map rowId (R1 @ R2))"
    and "case cur of
           Some c \<Rightarrow> R1 \<noteq> [] \<and> endRowId c = rowId (last R1)
         | None \<Rightarrow> G \<noteq> [] \<longrightarrow>
             (\<exists>x1 a mid. R1 = x1 @ a # mid \<and> mid \<noteq> [] \<and> endRowId (last G) = rowId a)"
  shows "foldl (group_step (index_map (map rowId (R1 @ R2))))
             (G @ (case cur of None \<Rightarrow> [] | Some c \<Rightarrow> [c])) (raw_connectors so sn R2)
           = G @ runs cur so sn R2"
  using assms
proof (induction R2 arbitrary: R1 G cur so sn)
  case Nil
  show ?case by simp
next
  case (Cons r R2)
  let ?M = "index_map (map rowId (R1 @ r # R2))"
  let ?so = "seen_old so r" and ?sn = "seen_new sn r"
  have R: "R1 @ r # R2 = (R1 @ [r]) @ R2" by simp
  from Cons.prems(1) have d': "distinct (map rowId ((R1 @ [r]) @ R2))" by simp
  show ?case
  proof (cases "row_connector so sn r")
    case None
    have c': "case None :: ConnectorMeta option of
           Some c \<Rightarrow> R1 @ [r] \<noteq> [] \<and> endRowId c = rowId (last (R1 @ [r]))
         | None \<Rightarrow> G @ (case cur of None \<Rightarrow> [] | Some c \<Rightarrow> [c]) \<noteq> [] \<longrightarrow>
             (\<exists>x1 a mid. R1 @ [r] = x1 @ a # mid \<and> mid \<noteq> []
                \<and> endRowId (last (G @ (case cur of None \<Rightarrow> [] | Some c \<Rightarrow> [c]))) = rowId a)"
    proof (cases cur)
      case None
      show ?thesis
      proof (cases "G = []")
        case True
        with None show ?thesis by simp
      next
        case False
        with Cons.prems(2) None obtain x1 a mid where
          x: "R1 = x1 @ a # mid" "mid \<noteq> []" "endRowId (last G) = rowId a" by auto
        from x have "R1 @ [r] = x1 @ a # (mid @ [r]) \<and> mid @ [r] \<noteq> []
            \<and> endRowId (last G) = rowId a" by simp
        then have "\<exists>x1 a mid. R1 @ [r] = x1 @ a # mid \<and> mid \<noteq> []
            \<and> endRowId (last G) = rowId a" by blast
        with None show ?thesis by simp
      qed
    next
      case (Some c)
      with Cons.prems(2) have n: "R1 \<noteq> []" and e: "endRowId c = rowId (last R1)" by simp_all
      from n have "R1 @ [r] = butlast R1 @ last R1 # [r]" by simp
      with e have "\<exists>x1 a mid. R1 @ [r] = x1 @ a # mid \<and> mid \<noteq> []
            \<and> endRowId c = rowId a" by blast
      with Some show ?thesis by simp
    qed
    from Cons.IH [OF d' c', of ?so ?sn] None show ?thesis
      unfolding R [symmetric] by simp
  next
    case (Some d)
    note ids = row_connector_ids [OF Some]
    show ?thesis
    proof (cases cur)
      case None
      have step: "group_step ?M G d = G @ [d]"
      proof (cases "G = []")
        case True
        then show ?thesis by (simp add: group_step_merges)
      next
        case False
        with Cons.prems(2) None obtain x1 a mid where
          x: "R1 = x1 @ a # mid" "mid \<noteq> []" "endRowId (last G) = rowId a" by auto
        from consec_gap [OF Cons.prems(1) [unfolded x(1)] x(2)] x(1,3) ids
        have "\<not> merges ?M (last G) d" by (simp add: merges_same_run)
        then show ?thesis by (simp add: group_step_merges)
      qed
      have c': "case Some d of
           Some c \<Rightarrow> R1 @ [r] \<noteq> [] \<and> endRowId c = rowId (last (R1 @ [r]))
         | None \<Rightarrow> G \<noteq> [] \<longrightarrow>
             (\<exists>x1 a mid. R1 @ [r] = x1 @ a # mid \<and> mid \<noteq> [] \<and> endRowId (last G) = rowId a)"
        using ids by simp
      from Cons.IH [OF d' c', of ?so ?sn] Some None step show ?thesis
        unfolding R [symmetric] by simp
    next
      case (Some c)
      note cur = Some
      with Cons.prems(2) have n: "R1 \<noteq> []" and e: "endRowId c = rowId (last R1)" by simp_all
      from consec_last [OF Cons.prems(1) n] e ids
      have m: "merges ?M c d = same_run c d" by (simp add: merges_same_run)
      show ?thesis
      proof (cases "same_run c d")
        case True
        with m have step: "group_step ?M (G @ [c]) d = G @ [set_endRowId (rowId r) c]"
          using ids by (simp add: group_step_merges)
        have c': "case Some (set_endRowId (rowId r) c) of
           Some c \<Rightarrow> R1 @ [r] \<noteq> [] \<and> endRowId c = rowId (last (R1 @ [r]))
         | None \<Rightarrow> G \<noteq> [] \<longrightarrow>
             (\<exists>x1 a mid. R1 @ [r] = x1 @ a # mid \<and> mid \<noteq> [] \<and> endRowId (last G) = rowId a)"
          by simp
        from Cons.IH [OF d' c', of ?so ?sn] \<open>row_connector so sn r = Some d\<close> cur step True
        show ?thesis unfolding R [symmetric] by simp
      next
        case False
        with m have step: "group_step ?M (G @ [c]) d = (G @ [c]) @ [d]"
          by (simp add: group_step_merges)
        have c': "case Some d of
           Some c' \<Rightarrow> R1 @ [r] \<noteq> [] \<and> endRowId c' = rowId (last (R1 @ [r]))
         | None \<Rightarrow> G @ [c] \<noteq> [] \<longrightarrow>
             (\<exists>x1 a mid. R1 @ [r] = x1 @ a # mid \<and> mid \<noteq> []
                \<and> endRowId (last (G @ [c])) = rowId a)"
          using ids by simp
        from Cons.IH [OF d' c', of ?so ?sn] \<open>row_connector so sn r = Some d\<close> cur step False
        show ?thesis unfolding R [symmetric] by simp
      qed
    qed
  qed
qed

lemma grouped_runs:
  assumes d: "distinct (map rowId (rows (build_rows f oldFileLines newFileLines)))"
  shows "snd (buildVisualRows f oldFileLines newFileLines)
           = row_runs (fst (buildVisualRows f oldFileLines newFileLines))"
proof -
  let ?s = "build_rows f oldFileLines newFileLines"
  have c: "connectors ?s = raw_connectors 0 0 (rows ?s)"
    using scan_ok_build [of f oldFileLines newFileLines] by (simp add: scan_ok_def)
  from fold_runs [where ?R1.0 = "[]" and ?R2.0 = "rows ?s" and cur = None and G = "[]"
      and so = 0 and sn = 0] d
  have "foldl (group_step (index_map (map rowId (rows ?s)))) [] (raw_connectors 0 0 (rows ?s))
      = runs None 0 0 (rows ?s)" by simp
  then show ?thesis
    by (simp add: buildVisualRows_def Let_def c row_runs_def)
qed

lemma added_row_connector:
  assumes "row_kind r = Some KAdded"
  shows "row_connector so sn r = Some (AddedConn (rowId r) (rowId r) (or_null so))
       \<and> seen_old so r = so"
proof -
  from assms have l: "left r = LSpacer"
    by (cases "left r"; cases "right r") (auto split: LeftKind.splits RightKind.splits)
  from assms have "row_connector so sn r = Some (AddedConn (rowId r) (rowId r) (or_null so))"
    by (simp add: row_connector_def del: row_kind.simps)
  moreover from l have "seen_old so r = so" by (simp add: seen_old_def)
  ultimately show ?thesis by simp
qed

lemma runs_none_head:
  assumes "post = [] \<or> row_kind (hd post) \<noteq> Some KAdded" and "conn_kind c = KAdded"
  shows "runs (Some c) so sn post = c # runs None so sn post"
proof (cases post)
  case Nil
  then show ?thesis by simp
next
  case (Cons r rs)
  with assms(1) have k: "row_kind r \<noteq> Some KAdded" by (simp del: row_kind.simps)
  show ?thesis
  proof (cases "row_connector so sn r")
    case None
    with Cons show ?thesis by simp
  next
    case (Some d)
    from row_connector_ids [OF Some] k have "conn_kind d \<noteq> KAdded" by auto
    with assms(2) have "\<not> same_run c d" by (simp add: same_run_def)
    with Some Cons show ?thesis by simp
  qed
qed

lemma runs_absorb:
  assumes "\<forall>r \<in> set run. row_kind r = Some KAdded"
    and "post = [] \<or> row_kind (hd post) \<noteq> Some KAdded"
  shows "runs (Some (AddedConn s e (or_null so))) so sn (run @ post)
           = AddedConn s (last (e # map rowId run)) (or_null so)
               # runs None so (foldl seen_new sn run) post"
  using assms(1)
proof (induction run arbitrary: e sn)
  case Nil
  show ?case using runs_none_head [OF assms(2), of "AddedConn s e (or_null so)" so sn] by simp
next
  case (Cons r run)
  from Cons.prems have k: "row_kind r = Some KAdded" and rest: "\<forall>r \<in> set run. row_kind r = Some KAdded"
    by (simp_all del: row_kind.simps)
  note a = added_row_connector [OF k, of so sn]
  have sr: "same_run (AddedConn s e (or_null so)) (AddedConn (rowId r) (rowId r) (or_null so))"
    by (simp add: same_run_def)
  from Cons.IH [OF rest, of "rowId r" "seen_new sn r"] a sr show ?case by simp
qed

lemma runs_added:
  assumes "case cur of None \<Rightarrow> True | Some c \<Rightarrow> conn_kind c \<noteq> KAdded"
    and "run \<noteq> []" and "\<forall>r \<in> set run. row_kind r = Some KAdded"
    and "post = [] \<or> row_kind (hd post) \<noteq> Some KAdded"
  shows "runs cur so sn (run @ post)
           = (case cur of None \<Rightarrow> [] | Some c \<Rightarrow> [c])
             @ AddedConn (rowId (hd run)) (rowId (last run)) (or_null so)
               # runs None so (foldl seen_new sn run) post"
proof -
  from assms(2) obtain r run' where run: "run = r # run'" by (cases run) auto
  with assms(3) have k: "row_kind r = Some KAdded" and rest: "\<forall>r \<in> set run'. row_kind r = Some KAdded"
    by (simp_all del: row_kind.simps)
  note a = added_row_connector [OF k, of so sn]
  note ab = runs_absorb [OF rest assms(4), of "rowId r" "rowId r" so "seen_new sn r"]
  have l: "last (rowId r # map rowId run') = rowId (last (r # run'))"
    by (simp add: last_map)
  show ?thesis
  proof (cases cur)
    case None
    with a ab l show ?thesis unfolding run by simp
  next
    case (Some c)
    with assms(1) have "\<not> same_run c (AddedConn (rowId r) (rowId r) (or_null so))"
      by (simp add: same_run_def)
    with Some a ab l show ?thesis unfolding run by simp
  qed
qed

lemma runs_prefix:
  assumes "pre \<noteq> [] \<longrightarrow> row_kind (last pre) \<noteq> Some KAdded"
    and "pre = [] \<longrightarrow> (case cur of None \<Rightarrow> True | Some c \<Rightarrow> conn_kind c \<noteq> KAdded)"
    and run: "run \<noteq> []" "\<forall>r \<in> set run. row_kind r = Some KAdded"
    and post: "post = [] \<or> row_kind (hd post) \<noteq> Some KAdded"
  shows "runs cur so sn (pre @ run @ post)
           = runs cur so sn pre
             @ AddedConn (rowId (hd run)) (rowId (last run)) (or_null (foldl seen_old so pre))
               # runs None (foldl seen_old so pre) (foldl seen_new sn (pre @ run)) post"
  using assms(1,2)
proof (induction pre arbitrary: cur so sn)
  case Nil
  then show ?case using runs_added [OF _ run post, of cur so sn] by simp
next
  case (Cons r pre)
  from Cons.prems(1) have p1: "pre \<noteq> [] \<longrightarrow> row_kind (last pre) \<noteq> Some KAdded"
    by (auto simp del: row_kind.simps split: if_splits)
  from Cons.prems(1) have lastr: "pre = [] \<longrightarrow> row_kind r \<noteq> Some KAdded"
    by (auto simp del: row_kind.simps split: if_splits)
  show ?case
  proof (cases "row_connector so sn r")
    case None
    have "pre = [] \<longrightarrow> (case None :: ConnectorMeta option of None \<Rightarrow> True
        | Some c \<Rightarrow> conn_kind c \<noteq> KAdded)" by simp
    from Cons.IH [OF p1 this, of "seen_old so r" "seen_new sn r"] None show ?thesis by simp
  next
    case (Some d)
    from row_connector_ids [OF Some] lastr have dk: "pre = [] \<longrightarrow> conn_kind d \<noteq> KAdded" by auto
    then have p2: "pre = [] \<longrightarrow> (case Some d of None \<Rightarrow> True | Some c \<Rightarrow> conn_kind c \<noteq> KAdded)"
      by simp
    show ?thesis
    proof (cases cur)
      case None
      from Cons.IH [OF p1 p2, of "seen_old so r" "seen_new sn r"] Some None show ?thesis by simp
    next
      case (Some c)
      show ?thesis
      proof (cases "same_run c d")
        case True
        then have "conn_kind c = conn_kind d" by (simp add: same_run_def)
        with dk have p3: "pre = [] \<longrightarrow> (case Some (set_endRowId (rowId r) c) of None \<Rightarrow> True
            | Some c \<Rightarrow> conn_kind c \<noteq> KAdded)" by simp
        from Cons.IH [OF p1 p3, of "seen_old so r" "seen_new sn r"]
          \<open>row_connector so sn r = Some d\<close> Some True
        show ?thesis by simp
      next
        case False
        from Cons.IH [OF p1 p2, of "seen_old so r" "seen_new sn r"]
          \<open>row_connector so sn r = Some d\<close> Some False
        show ?thesis by simp
      qed
    qed
  qed
qed

lemma runs_ids:
  "c \<in> set (runs cur so sn rs) \<Longrightarrow>
     (startRowId c \<in> rowId ` set rs \<or> (\<exists>c0. cur = Some c0 \<and> startRowId c = startRowId c0))
     \<and> (endRowId c \<in> rowId ` set rs \<or> cur = Some c)"
proof (induction rs arbitrary: cur so sn)
  case Nil
  then show ?case by (cases cur) auto
next
  case (Cons r rs)
  show ?case
  proof (cases "row_connector so sn r")
    case None
    with Cons.prems have "c \<in> set (case cur of None \<Rightarrow> [] | Some c \<Rightarrow> [c])
        \<or> c \<in> set (runs None (seen_old so r) (seen_new sn r) rs)" by simp
    then show ?thesis
    proof
      assume "c \<in> set (case cur of None \<Rightarrow> [] | Some c \<Rightarrow> [c])"
      then show ?thesis by (cases cur) auto
    next
      assume "c \<in> set (runs None (seen_old so r) (seen_new sn r) rs)"
      from Cons.IH [OF this] show ?thesis by auto
    qed
  next
    case (Some d)
    note ids = row_connector_ids [OF Some]
    show ?thesis
    proof (cases cur)
      case None
      with Some Cons.prems have "c \<in> set (runs (Some d) (seen_old so r) (seen_new sn r) rs)" by simp
      from Cons.IH [OF this] ids show ?thesis by auto
    next
      case (Some c0)
      show ?thesis
      proof (cases "same_run c0 d")
        case True
        with Some \<open>row_connector so sn r = Some d\<close> Cons.prems
        have "c \<in> set (runs (Some (set_endRowId (rowId r) c0)) (seen_old so r) (seen_new sn r) rs)"
          by simp
        from Cons.IH [OF this] Some show ?thesis by auto
      next
        case False
        with Some \<open>row_connector so sn r = Some d\<close> Cons.prems
        have "c = c0 \<or> c \<in> set (runs (Some d) (seen_old so r) (seen_new sn r) rs)" by simp
        then show ?thesis
        proof
          assume "c = c0"
          with Some show ?thesis by simp
        next
          assume "c \<in> set (runs (Some d) (seen_old so r) (seen_new sn r) rs)"
          from Cons.IH [OF this] ids show ?thesis by auto
        qed
      qed
    qed
  qed
qed

lemma row_runs_ids:
  "c \<in> set (runs None so sn rs) \<Longrightarrow> startRowId c \<in> rowId ` set rs \<and> endRowId c \<in> rowId ` set rs"
  using runs_ids [of c None so sn rs] by simp

lemma value_rows: "fst (buildVisualRows f a b) = rows (build_rows f a b)"
  by (simp add: buildVisualRows_def Let_def)

text \<open>
  Claim C7, as amended. In both builders a grouping step merges a raw connector into the
  last grouped one exactly when the two are of the same kind, the start row index of the
  current connector, as the index map gives it, immediately follows the end row index of
  the last one and, for the kinds added and removed, the anchor line numbers are
  identical; otherwise it appends the connector (\<open>buildColumns\<close> takes the index among the
  left items when one of the two is a removal, among the right items otherwise).

  In every file the raw connectors are those of the rows, in order: one for each row that
  is not a context row, an added row anchored at the last old line number before it and a
  removed row at the last new line number before it, so that added rows directly after
  one another all have the same anchor.

  For every file that is given without full-file contents, or whose hunks are in ascending
  order with starts and counts that add up to less than \<open>2^53\<close>, the grouped connectors of both builders are those of the runs of the rows: rows
  directly after one another with connectors of the same kind and, for added and removed
  rows, the same anchor, have one connector from the first row to the last. In
  particular, \<open>N \<ge> 1\<close> added rows directly after one another, with no added row directly
  before and none directly after, have exactly one connector: an added connector from the
  first of them to the last, anchored at the last old line number before them, and no
  other connector starts or ends at one of these rows.

  Added lines become such rows: in a hunk, \<open>N\<close> added lines from position \<open>i\<close> of the loop
  on that are not followed by a removed line give \<open>N\<close> added rows directly after one
  another.
\<close>

theorem connectors_grouped:
  "group_step indexMap G c =
     (if G \<noteq> [] \<and> merges indexMap (last G) c
      then butlast G @ [set_endRowId (endRowId c) (last G)]
      else G @ [c])
   \<and> group_stepC leftIndexMap rightIndexMap G c =
     (if G \<noteq> [] \<and> merges (if conn_kind c = KRemoved \<or> conn_kind (last G) = KRemoved
                                   then leftIndexMap else rightIndexMap) (last G) c
      then butlast G @ [set_endRowId (endRowId c) (last G)]
      else G @ [c])
   \<and> ((has_full_files oldFileLines newFileLines
          \<longrightarrow> hunks_ascending 0 0 (hunks f) \<and> sums_below_limit (hunks f)) \<longrightarrow>
        snd (buildVisualRows f oldFileLines newFileLines)
          = row_runs (fst (buildVisualRows f oldFileLines newFileLines))
        \<and> snd (snd (buildColumns f oldFileLines newFileLines))
          = row_runs (fst (buildVisualRows f oldFileLines newFileLines))
        \<and> (\<forall>pre run post.
              fst (buildVisualRows f oldFileLines newFileLines) = pre @ run @ post
              \<and> run \<noteq> [] \<and> (\<forall>r \<in> set run. row_kind r = Some KAdded)
              \<and> (pre \<noteq> [] \<longrightarrow> row_kind (last pre) \<noteq> Some KAdded)
              \<and> (post \<noteq> [] \<longrightarrow> row_kind (hd post) \<noteq> Some KAdded)
              \<longrightarrow>
              snd (buildVisualRows f oldFileLines newFileLines)
                = row_runs pre
                  @ AddedConn (rowId (hd run)) (rowId (last run)) (or_null (foldl seen_old 0 pre))
                    # runs None (foldl seen_old 0 pre) (foldl seen_new 0 (pre @ run)) post
              \<and> (\<forall>c \<in> set (row_runs pre)
                         \<union> set (runs None (foldl seen_old 0 pre) (foldl seen_new 0 (pre @ run)) post).
                    startRowId c \<notin> rowId ` set run \<and> endRowId c \<notin> rowId ` set run)))
   \<and> ((\<forall>j < N. type (ls ! (i + j)) = Added) \<and> i + N \<le> length ls
        \<and> (i + N < length ls \<longrightarrow> type (ls ! (i + N)) \<noteq> Removed) \<longrightarrow>
        (\<exists>s' run. hunk_loop hunkIndex ls i s = hunk_loop hunkIndex ls (i + N) s'
           \<and> rows s' = rows s @ run
           \<and> map rowId run = map (added_id hunkIndex) [i..<i + N]
           \<and> (\<forall>r \<in> set run. row_kind r = Some KAdded)))
   \<and> connectors (build_rows f oldFileLines newFileLines)
       = raw_connectors 0 0 (fst (buildVisualRows f oldFileLines newFileLines))"
proof -
  let ?R = "fst (buildVisualRows f oldFileLines newFileLines)"
  let ?G = "snd (buildVisualRows f oldFileLines newFileLines)"
  have B: "?G = row_runs ?R \<and> snd (snd (buildColumns f oldFileLines newFileLines)) = row_runs ?R
      \<and> (\<forall>pre run post.
              ?R = pre @ run @ post
              \<and> run \<noteq> [] \<and> (\<forall>r \<in> set run. row_kind r = Some KAdded)
              \<and> (pre \<noteq> [] \<longrightarrow> row_kind (last pre) \<noteq> Some KAdded)
              \<and> (post \<noteq> [] \<longrightarrow> row_kind (hd post) \<noteq> Some KAdded)
              \<longrightarrow>
              ?G = row_runs pre
                  @ AddedConn (rowId (hd run)) (rowId (last run)) (or_null (foldl seen_old 0 pre))
                    # runs None (foldl seen_old 0 pre) (foldl seen_new 0 (pre @ run)) post
              \<and> (\<forall>c \<in> set (row_runs pre)
                         \<union> set (runs None (foldl seen_old 0 pre) (foldl seen_new 0 (pre @ run)) post).
                    startRowId c \<notin> rowId ` set run \<and> endRowId c \<notin> rowId ` set run))"
    if cond: "has_full_files oldFileLines newFileLines
        \<longrightarrow> hunks_ascending 0 0 (hunks f) \<and> sums_below_limit (hunks f)"
  proof -
    from cond have asc: "has_full_files oldFileLines newFileLines \<longrightarrow> hunks_ascending 0 0 (hunks f)"
      by blast
    from row_ids_distinct [OF asc]
    have d: "distinct (map rowId (rows (build_rows f oldFileLines newFileLines)))" .
    have g: "?G = row_runs ?R" by (rule grouped_runs [OF d])
    have gc: "snd (snd (buildColumns f oldFileLines newFileLines)) = row_runs ?R"
      using grouped_agree [OF d] g by simp
    have run: "?G = row_runs pre
                  @ AddedConn (rowId (hd run)) (rowId (last run)) (or_null (foldl seen_old 0 pre))
                    # runs None (foldl seen_old 0 pre) (foldl seen_new 0 (pre @ run)) post
              \<and> (\<forall>c \<in> set (row_runs pre)
                         \<union> set (runs None (foldl seen_old 0 pre) (foldl seen_new 0 (pre @ run)) post).
                    startRowId c \<notin> rowId ` set run \<and> endRowId c \<notin> rowId ` set run)"
      if R: "?R = pre @ run @ post" and n: "run \<noteq> []"
        and k: "\<forall>r \<in> set run. row_kind r = Some KAdded"
        and p: "pre \<noteq> [] \<longrightarrow> row_kind (last pre) \<noteq> Some KAdded"
        and q: "post \<noteq> [] \<longrightarrow> row_kind (hd post) \<noteq> Some KAdded"
      for pre run post
    proof
      from q have q': "post = [] \<or> row_kind (hd post) \<noteq> Some KAdded" by blast
      have c0: "pre = [] \<longrightarrow> (case None :: ConnectorMeta option of None \<Rightarrow> True
          | Some c \<Rightarrow> conn_kind c \<noteq> KAdded)" by simp
      from runs_prefix [OF p c0 n k q', of 0 0]
      show "?G = row_runs pre
                  @ AddedConn (rowId (hd run)) (rowId (last run)) (or_null (foldl seen_old 0 pre))
                    # runs None (foldl seen_old 0 pre) (foldl seen_new 0 (pre @ run)) post"
        unfolding g R row_runs_def .
      from d R have dd: "distinct (map rowId (pre @ run @ post))" by (simp add: value_rows)
      show "\<forall>c \<in> set (row_runs pre)
                 \<union> set (runs None (foldl seen_old 0 pre) (foldl seen_new 0 (pre @ run)) post).
              startRowId c \<notin> rowId ` set run \<and> endRowId c \<notin> rowId ` set run"
      proof
        fix c assume "c \<in> set (row_runs pre)
                 \<union> set (runs None (foldl seen_old 0 pre) (foldl seen_new 0 (pre @ run)) post)"
        then have "(startRowId c \<in> rowId ` set pre \<and> endRowId c \<in> rowId ` set pre)
            \<or> (startRowId c \<in> rowId ` set post \<and> endRowId c \<in> rowId ` set post)"
          using row_runs_ids unfolding row_runs_def by blast
        with dd show "startRowId c \<notin> rowId ` set run \<and> endRowId c \<notin> rowId ` set run"
          by auto
      qed
    qed
    from g gc run show ?thesis by blast
  qed
  have D: "(\<forall>j < N. type (ls ! (i + j)) = Added) \<and> i + N \<le> length ls
        \<and> (i + N < length ls \<longrightarrow> type (ls ! (i + N)) \<noteq> Removed) \<longrightarrow>
        (\<exists>s' run. hunk_loop hunkIndex ls i s = hunk_loop hunkIndex ls (i + N) s'
           \<and> rows s' = rows s @ run
           \<and> map rowId run = map (added_id hunkIndex) [i..<i + N]
           \<and> (\<forall>r \<in> set run. row_kind r = Some KAdded))"
    using hunk_loop_run [of N ls i hunkIndex s] by blast
  have E: "connectors (build_rows f oldFileLines newFileLines) = raw_connectors 0 0 ?R"
    using scan_ok_build [of f oldFileLines newFileLines] by (simp add: scan_ok_def value_rows)
  show ?thesis
    using group_step_merges [of indexMap G c]
      group_stepC_merges [of leftIndexMap rightIndexMap G c] B D E
    by blast
qed
theorem connectors_grouped_witness:
  "hunks_ascending 0 0 (hunks example_run_file)
   \<and> sums_below_limit (hunks example_run_file)
   \<and> fst (buildVisualRows example_run_file (Some [''a'', ''b'']) (Some [''a'', ''x'', ''y'', ''b'']))
       = example_run_before @ example_run_added @ example_run_after
   \<and> map rowId example_run_added = [''added-0-1'', ''added-0-2'']
   \<and> map row_kind example_run_added = [Some KAdded, Some KAdded]
   \<and> snd (buildVisualRows example_run_file (Some [''a'', ''b'']) (Some [''a'', ''x'', ''y'', ''b'']))
       = [AddedConn ''added-0-1'' ''added-0-2'' (Some 1)]
   \<and> snd (snd (buildColumns example_run_file (Some [''a'', ''b''])
         (Some [''a'', ''x'', ''y'', ''b''])))
       = [AddedConn ''added-0-1'' ''added-0-2'' (Some 1)]
   \<and> (\<exists>s' run. hunk_loop 0 (lines (hd (hunks example_run_file))) 1 builder_init
                  = hunk_loop 0 (lines (hd (hunks example_run_file))) (1 + 2) s'
          \<and> rows s' = rows builder_init @ run
          \<and> map rowId run = [''added-0-1'', ''added-0-2''])"
proof -
  let ?o = "Some [''a'', ''b'']" and ?n = "Some [''a'', ''x'', ''y'', ''b'']"
  let ?R = "fst (buildVisualRows example_run_file ?o ?n)"
  let ?ls = "lines (hd (hunks example_run_file))"
  have asc: "hunks_ascending 0 0 (hunks example_run_file)"
    by (simp add: example_run_file_def)
  have lim: "sums_below_limit (hunks example_run_file)"
    by (simp add: example_run_file_def sums_below_limit_def)
  have split: "?R = example_run_before @ example_run_added @ example_run_after"
    by code_simp
  have ids: "map rowId example_run_added = [''added-0-1'', ''added-0-2'']"
    and kinds: "map row_kind example_run_added = [Some KAdded, Some KAdded]"
    by (simp_all add: example_run_added_def)
  have h: "example_run_added \<noteq> []" "\<forall>r \<in> set example_run_added. row_kind r = Some KAdded"
    by (simp_all add: example_run_added_def)
  have hb: "example_run_before \<noteq> [] \<longrightarrow> row_kind (last example_run_before) \<noteq> Some KAdded"
    by (simp add: example_run_before_def)
  have ha: "example_run_after \<noteq> [] \<longrightarrow> row_kind (hd example_run_after) \<noteq> Some KAdded"
    by (simp add: example_run_after_def)
  have e: "row_runs example_run_before
        @ AddedConn (rowId (hd example_run_added)) (rowId (last example_run_added))
            (or_null (foldl seen_old 0 example_run_before))
          # runs None (foldl seen_old 0 example_run_before)
              (foldl seen_new 0 (example_run_before @ example_run_added)) example_run_after
      = [AddedConn ''added-0-1'' ''added-0-2'' (Some 1)]"
    by code_simp
  have l: "\<forall>j < 2. type (?ls ! (1 + j)) = Added" "1 + 2 \<le> length ?ls"
      "1 + 2 < length ?ls \<longrightarrow> type (?ls ! (1 + 2)) \<noteq> Removed"
    by (simp_all add: example_run_file_def less_Suc_eq numeral_2_eq_2)
  have u: "map (added_id 0) [1..<1 + 2] = [''added-0-1'', ''added-0-2'']" by code_simp
  note t = connectors_grouped [where f = example_run_file and oldFileLines = ?o
      and newFileLines = ?n and N = 2 and ls = ?ls and i = 1 and hunkIndex = 0
      and s = builder_init]
  note B = t [THEN conjunct2, THEN conjunct2, THEN conjunct1]
  from asc lim have a': "has_full_files ?o ?n
      \<longrightarrow> hunks_ascending 0 0 (hunks example_run_file) \<and> sums_below_limit (hunks example_run_file)"
    by blast
  note C = B [THEN mp, OF a']
  note g = C [THEN conjunct1] and gc = C [THEN conjunct2, THEN conjunct1]
    and r = C [THEN conjunct2, THEN conjunct2, THEN spec, THEN spec, THEN spec, THEN mp,
      of example_run_before example_run_added example_run_after]
  have prem: "?R = example_run_before @ example_run_added @ example_run_after
      \<and> example_run_added \<noteq> [] \<and> (\<forall>r \<in> set example_run_added. row_kind r = Some KAdded)
      \<and> (example_run_before \<noteq> [] \<longrightarrow> row_kind (last example_run_before) \<noteq> Some KAdded)
      \<and> (example_run_after \<noteq> [] \<longrightarrow> row_kind (hd example_run_after) \<noteq> Some KAdded)"
    using split h hb ha by (intro conjI)
  from r [OF prem, THEN conjunct1]
  have "snd (buildVisualRows example_run_file ?o ?n)
      = row_runs example_run_before
        @ AddedConn (rowId (hd example_run_added)) (rowId (last example_run_added))
            (or_null (foldl seen_old 0 example_run_before))
          # runs None (foldl seen_old 0 example_run_before)
              (foldl seen_new 0 (example_run_before @ example_run_added)) example_run_after" .
  with e have 1: "snd (buildVisualRows example_run_file ?o ?n)
      = [AddedConn ''added-0-1'' ''added-0-2'' (Some 1)]" by (simp only:)
  with g gc have 2: "snd (snd (buildColumns example_run_file ?o ?n))
      = [AddedConn ''added-0-1'' ''added-0-2'' (Some 1)]" by (simp only:)
  note D = t [THEN conjunct2, THEN conjunct2, THEN conjunct2, THEN conjunct1]
  have lp: "(\<forall>j < 2. type (?ls ! (1 + j)) = Added) \<and> 1 + 2 \<le> length ?ls
        \<and> (1 + 2 < length ?ls \<longrightarrow> type (?ls ! (1 + 2)) \<noteq> Removed)"
    using l by (intro conjI)
  from D [THEN mp, OF lp]
  have "\<exists>s' run. hunk_loop 0 ?ls 1 builder_init = hunk_loop 0 ?ls (1 + 2) s'
           \<and> rows s' = rows builder_init @ run
           \<and> map rowId run = map (added_id 0) [1..<1 + 2]
           \<and> (\<forall>r \<in> set run. row_kind r = Some KAdded)" .
  then have 3: "\<exists>s' run. hunk_loop 0 ?ls 1 builder_init = hunk_loop 0 ?ls (1 + 2) s'
          \<and> rows s' = rows builder_init @ run
          \<and> map rowId run = [''added-0-1'', ''added-0-2'']"
    unfolding u by (elim exE conjE) (intro exI conjI)
  from asc lim split ids kinds 1 2 3 show ?thesis by (intro conjI)
qed

text \<open>
  With full-file contents and hunks that go backwards the claim fails. The two hunks
  \<^verbatim>\<open>@@ -1,0 +3,0 @@\<close> and \<^verbatim>\<open>@@ -1,0 +1,0 @@\<close> with the new contents \<^verbatim>\<open>x\<close>, \<^verbatim>\<open>y\<close> give
  the gap rows \<^verbatim>\<open>added-full-1\<close> and \<^verbatim>\<open>added-full-2\<close> twice: four added rows directly
  after one another, all without anchor. The index map keeps the last position of each
  identifier, so the third row does not follow the second by its index, and the four rows
  get two connectors where their run has one.
\<close>

theorem connectors_grouped_counterexample:
  "files (parseUnifiedDiff example_backwards_diff) = [js_file example_backwards_file]
   \<and> map rowId (fst (buildVisualRows example_backwards_file (Some []) (Some [''x'', ''y''])))
       = [''added-full-1'', ''added-full-2'', ''added-full-1'', ''added-full-2'']
   \<and> map row_kind (fst (buildVisualRows example_backwards_file (Some []) (Some [''x'', ''y''])))
       = [Some KAdded, Some KAdded, Some KAdded, Some KAdded]
   \<and> raw_connectors 0 0 (fst (buildVisualRows example_backwards_file (Some []) (Some [''x'', ''y''])))
       = [AddedConn ''added-full-1'' ''added-full-1'' None,
          AddedConn ''added-full-2'' ''added-full-2'' None,
          AddedConn ''added-full-1'' ''added-full-1'' None,
          AddedConn ''added-full-2'' ''added-full-2'' None]
   \<and> snd (buildVisualRows example_backwards_file (Some []) (Some [''x'', ''y'']))
       = [AddedConn ''added-full-1'' ''added-full-2'' None,
          AddedConn ''added-full-1'' ''added-full-2'' None]
   \<and> snd (snd (buildColumns example_backwards_file (Some []) (Some [''x'', ''y''])))
       = [AddedConn ''added-full-1'' ''added-full-2'' None,
          AddedConn ''added-full-1'' ''added-full-2'' None]
   \<and> row_runs (fst (buildVisualRows example_backwards_file (Some []) (Some [''x'', ''y''])))
       = [AddedConn ''added-full-1'' ''added-full-2'' None]"
  by code_simp

section \<open>Empty full-file arrays\<close>

text \<open>
  Claim C10. For every file, the row builder called with two empty arrays returns the rows
  and connectors it returns with both arrays absent: empty arrays count as no full
  contents. The column builder of the second variant behaves the same way.
\<close>

theorem empty_arrays_as_absent:
  "buildVisualRows file (Some []) (Some []) = buildVisualRows file None None
   \<and> buildColumns file (Some []) (Some []) = buildColumns file None None"
  by (simp add: buildVisualRows_def build_rows_def buildColumns_def build_columns_def
        has_full_files_def or_else_def)

section \<open>Properties of the inline change differ\<close>

lemma prefix_loop_lcp:
  "k \<le> length a \<Longrightarrow> k \<le> length b \<Longrightarrow>
   prefix_loop a b k = k + length (longest_common_prefix (drop k a) (drop k b))"
proof (induction a b k rule: prefix_loop.induct)
  case (1 a b k)
  show ?case
  proof (cases "k < length a \<and> k < length b")
    case True
    then have da: "drop k a = a ! k # drop (Suc k) a" and db: "drop k b = b ! k # drop (Suc k) b"
      by (simp_all add: Cons_nth_drop_Suc)
    show ?thesis
    proof (cases "a ! k = b ! k")
      case eq: True
      with True "1.IH" have "prefix_loop a b (k + 1) = k + 1 + length (longest_common_prefix (drop (k + 1) a) (drop (k + 1) b))"
        by simp
      with True eq da db show ?thesis
        by (subst prefix_loop.simps) simp
    next
      case False
      with True da db show ?thesis by (subst prefix_loop.simps) simp
    qed
  next
    case False
    with "1.prems" have "drop k a = [] \<or> drop k b = []" by auto
    with False show ?thesis by (subst prefix_loop.simps) auto
  qed
qed

lemma suffix_loop_lcp:
  "p \<le> length a \<Longrightarrow> p \<le> length b \<Longrightarrow> s \<le> length a - p \<Longrightarrow> s \<le> length b - p \<Longrightarrow>
   suffix_loop a b p s =
     s + length (longest_common_prefix (drop s (rev (drop p a))) (drop s (rev (drop p b))))"
proof (induction a b p s rule: suffix_loop.induct)
  case (1 a b p s)
  let ?ra = "rev (drop p a)" and ?rb = "rev (drop p b)"
  show ?case
  proof (cases "s < length a - p \<and> s < length b - p")
    case True
    then have da: "drop s ?ra = ?ra ! s # drop (Suc s) ?ra" and db: "drop s ?rb = ?rb ! s # drop (Suc s) ?rb"
      by (simp_all add: Cons_nth_drop_Suc)
    from True "1.prems" have "p + (length a - Suc (p + s)) = length a - Suc s"
      and "p + (length b - Suc (p + s)) = length b - Suc s" by arith+
    with True "1.prems" have na: "?ra ! s = a ! (length a - 1 - s)" and nb: "?rb ! s = b ! (length b - 1 - s)"
      by (simp_all add: rev_nth)
    from True have guard: "int s < int (length a) - int p \<and> int s < int (length b) - int p" by linarith
    show ?thesis
    proof (cases "a ! (length a - 1 - s) = b ! (length b - 1 - s)")
      case eq: True
      with True guard "1.IH" "1.prems" have "suffix_loop a b p (s + 1) = s + 1 + length (longest_common_prefix (drop (s + 1) ?ra) (drop (s + 1) ?rb))"
        by simp
      with guard eq da db na nb show ?thesis
        by (subst suffix_loop.simps) simp
    next
      case False
      with guard da db na nb show ?thesis by (subst suffix_loop.simps) simp
    qed
  next
    case False
    with "1.prems" have "drop s ?ra = [] \<or> drop s ?rb = []" by auto
    moreover from False have "\<not> (int s < int (length a) - int p \<and> int s < int (length b) - int p)" by linarith
    ultimately show ?thesis by (subst suffix_loop.simps) auto
  qed
qed

lemma prefix_take_eq: "prefix xs ys \<Longrightarrow> take (length xs) ys = xs"
  by (auto simp: prefix_def)

lemma lcp_take_left: "take (length (longest_common_prefix a b)) a = longest_common_prefix a b"
  by (rule prefix_take_eq) (rule longest_common_prefix_prefix1)

lemma lcp_take_right: "take (length (longest_common_prefix a b)) b = longest_common_prefix a b"
  by (rule prefix_take_eq) (rule longest_common_prefix_prefix2)

lemma lcp_length_le: "length (longest_common_prefix a b) \<le> length a" "length (longest_common_prefix a b) \<le> length b"
  using longest_common_prefix_prefix1 [of a b] longest_common_prefix_prefix2 [of a b]
  by (auto dest: prefix_length_le)

lemma prefix_loop_0: "prefix_loop a b 0 = length (longest_common_prefix a b)"
  using prefix_loop_lcp [of 0 a b] by simp

lemma suffix_loop_0:
  "p \<le> length a \<Longrightarrow> p \<le> length b \<Longrightarrow>
   suffix_loop a b p 0 = length (longest_common_suffix (drop p a) (drop p b))"
  using suffix_loop_lcp [of p a b 0] by (simp add: longest_common_suffix_def)

lemma lcs_drop_left:
  "drop (length a - length (longest_common_suffix a b)) a = longest_common_suffix a b"
proof -
  let ?L = "longest_common_prefix (rev a) (rev b)"
  have "take (length ?L) (rev a) = ?L" by (rule lcp_take_left)
  then have "rev (take (length ?L) (rev a)) = rev ?L" by simp
  then show ?thesis by (simp add: longest_common_suffix_def rev_take)
qed

lemma lcs_drop_right:
  "drop (length b - length (longest_common_suffix a b)) b = longest_common_suffix a b"
proof -
  let ?L = "longest_common_prefix (rev a) (rev b)"
  have "take (length ?L) (rev b) = ?L" by (rule lcp_take_right)
  then have "rev (take (length ?L) (rev b)) = rev ?L" by simp
  then show ?thesis by (simp add: longest_common_suffix_def rev_take)
qed

lemma lcs_length_le:
  "length (longest_common_suffix a b) \<le> length a" "length (longest_common_suffix a b) \<le> length b"
  using lcp_length_le [of "rev a" "rev b"] by (simp_all add: longest_common_suffix_def)

lemma inline_parts:
  assumes p: "p \<le> length a" and s: "s \<le> length a - p"
  shows "slice a 0 (int p) = take p a"
    and "slice_from a (int (length a) - int s) = drop (length a - s) a"
    and "slice a 0 (int p) @ slice a (int p) (int (length a) - int s) @ slice_from a (int (length a) - int s) = a"
proof -
  from p s have n: "nat (int (length a) - int s) = length a - s" by simp
  from p s have le: "int p \<le> int (length a) - int s" by linarith
  show 1: "slice a 0 (int p) = take p a"
    using p by (simp add: slice_def slice_index_def min_def)
  show 2: "slice_from a (int (length a) - int s) = drop (length a - s) a"
    using p s n by (simp add: slice_from_def slice_index_def min_def)
  have 3: "slice a (int p) (int (length a) - int s) = take (length a - s - p) (drop p a)"
    using p s n le by (simp add: slice_def slice_index_def min_def)
  from p s have "length a - s = p + (length a - s - p)" by arith
  then have "take (length a - s) a = take p a @ take (length a - s - p) (drop p a)"
    by (metis take_add)
  then have "(take p a @ take (length a - s - p) (drop p a)) @ drop (length a - s) a = a"
    by (metis append_take_drop_id)
  then show "slice a 0 (int p) @ slice a (int p) (int (length a) - int s) @ slice_from a (int (length a) - int s) = a"
    using 1 2 3 by simp
qed


lemma buildInlineDiff_nonempty:
  assumes "\<not> (a = [] \<and> b = [])"
  defines "P \<equiv> longest_common_prefix a b"
  defines "S \<equiv> longest_common_suffix (drop (length P) a) (drop (length P) b)"
  shows "before (old (buildInlineDiff a b)) = P"
    and "before (nxt (buildInlineDiff a b)) = P"
    and "after (old (buildInlineDiff a b)) = S"
    and "after (nxt (buildInlineDiff a b)) = S"
    and "before (old (buildInlineDiff a b)) @ changed (old (buildInlineDiff a b))
           @ after (old (buildInlineDiff a b)) = a"
    and "before (nxt (buildInlineDiff a b)) @ changed (nxt (buildInlineDiff a b))
           @ after (nxt (buildInlineDiff a b)) = b"
proof -
  have pa: "length P \<le> length a" and pb: "length P \<le> length b"
    by (simp_all add: P_def lcp_length_le)
  have p0: "prefix_loop a b 0 = length P" by (simp add: P_def prefix_loop_0)
  have s0: "suffix_loop a b (length P) 0 = length S"
    using pa pb by (simp add: S_def suffix_loop_0)
  have sa: "length S \<le> length a - length P" and sb: "length S \<le> length b - length P"
    using lcs_length_le [of "drop (length P) a" "drop (length P) b"] by (simp_all add: S_def)
  have da: "drop (length a - length S) a = S"
  proof -
    have "drop (length (drop (length P) a) - length S) (drop (length P) a) = S"
      unfolding S_def by (rule lcs_drop_left)
    moreover from pa sa have "length a - length P - length S + length P = length a - length S" by arith
    ultimately show ?thesis by simp
  qed
  have db: "drop (length b - length S) b = S"
  proof -
    have "drop (length (drop (length P) b) - length S) (drop (length P) b) = S"
      unfolding S_def by (rule lcs_drop_right)
    moreover from pb sb have "length b - length P - length S + length P = length b - length S" by arith
    ultimately show ?thesis by simp
  qed
  have old_eq: "old (buildInlineDiff a b) =
      \<lparr>before = slice a 0 (int (length P)),
       changed = slice a (int (length P)) (int (length a) - int (length S)),
       after = slice_from a (int (length a) - int (length S))\<rparr>"
    using assms(1) by (auto simp: buildInlineDiff_def Let_def p0 s0)
  have nxt_eq: "nxt (buildInlineDiff a b) =
      \<lparr>before = slice b 0 (int (length P)),
       changed = slice b (int (length P)) (int (length b) - int (length S)),
       after = slice_from b (int (length b) - int (length S))\<rparr>"
    using assms(1) by (auto simp: buildInlineDiff_def Let_def p0 s0)
  show "before (old (buildInlineDiff a b)) = P"
    by (simp add: old_eq inline_parts(1) [OF pa sa]) (simp add: P_def lcp_take_left)
  show "before (nxt (buildInlineDiff a b)) = P"
    by (simp add: nxt_eq inline_parts(1) [OF pb sb]) (simp add: P_def lcp_take_right)
  show "after (old (buildInlineDiff a b)) = S"
    by (simp add: old_eq inline_parts(2) [OF pa sa] da)
  show "after (nxt (buildInlineDiff a b)) = S"
    by (simp add: nxt_eq inline_parts(2) [OF pb sb] db)
  show "before (old (buildInlineDiff a b)) @ changed (old (buildInlineDiff a b))
           @ after (old (buildInlineDiff a b)) = a"
    by (simp add: old_eq inline_parts(3) [OF pa sa])
  show "before (nxt (buildInlineDiff a b)) @ changed (nxt (buildInlineDiff a b))
           @ after (nxt (buildInlineDiff a b)) = b"
    by (simp add: nxt_eq inline_parts(3) [OF pb sb])
qed

lemma buildInlineDiff_empty:
  "buildInlineDiff [] [] =
     \<lparr>old = \<lparr>before = [], changed = [], after = []\<rparr>,
      nxt = \<lparr>before = [], changed = [], after = []\<rparr>\<rparr>"
  by (simp add: buildInlineDiff_def)

lemma buildInlineDiff_example:
  "buildInlineDiff ''const beta = 2;'' ''const beta = 3;'' =
     \<lparr>old = \<lparr>before = ''const beta = '', changed = ''2'', after = '';''\<rparr>,
      nxt = \<lparr>before = ''const beta = '', changed = ''3'', after = '';''\<rparr>\<rparr>"
  by code_simp

text \<open>
  Claim C6. For all strings, \<open>buildInlineDiff\<close> returns the longest common prefix of the
  two strings as \<open>before\<close> on both sides, the longest common suffix of what remains of
  each string after that prefix as \<open>after\<close> on both sides, and the three parts of each
  side concatenate to that side's input. On two empty strings every field is empty, and on
  \<^verbatim>\<open>("const beta = 2;", "const beta = 3;")\<close> the changed spans are \<^verbatim>\<open>2\<close> and
  \<^verbatim>\<open>3\<close> between the prefix \<^verbatim>\<open>const beta = \<close> and the suffix \<^verbatim>\<open>;\<close>.
\<close>

theorem buildInlineDiff_prefix_suffix:
  "before (old (buildInlineDiff oldText newText)) = longest_common_prefix oldText newText
   \<and> before (nxt (buildInlineDiff oldText newText)) = longest_common_prefix oldText newText
   \<and> after (old (buildInlineDiff oldText newText)) =
       longest_common_suffix (drop (length (longest_common_prefix oldText newText)) oldText)
                             (drop (length (longest_common_prefix oldText newText)) newText)
   \<and> after (nxt (buildInlineDiff oldText newText)) =
       longest_common_suffix (drop (length (longest_common_prefix oldText newText)) oldText)
                             (drop (length (longest_common_prefix oldText newText)) newText)
   \<and> before (old (buildInlineDiff oldText newText)) @ changed (old (buildInlineDiff oldText newText))
         @ after (old (buildInlineDiff oldText newText)) = oldText
   \<and> before (nxt (buildInlineDiff oldText newText)) @ changed (nxt (buildInlineDiff oldText newText))
         @ after (nxt (buildInlineDiff oldText newText)) = newText
   \<and> buildInlineDiff [] [] =
        \<lparr>old = \<lparr>before = [], changed = [], after = []\<rparr>,
         nxt = \<lparr>before = [], changed = [], after = []\<rparr>\<rparr>
   \<and> buildInlineDiff ''const beta = 2;'' ''const beta = 3;'' =
        \<lparr>old = \<lparr>before = ''const beta = '', changed = ''2'', after = '';''\<rparr>,
         nxt = \<lparr>before = ''const beta = '', changed = ''3'', after = '';''\<rparr>\<rparr>"
proof (cases "oldText = [] \<and> newText = []")
  case True
  then show ?thesis
    using buildInlineDiff_example by (simp add: buildInlineDiff_empty longest_common_suffix_def)
next
  case False
  from buildInlineDiff_nonempty [OF False] buildInlineDiff_empty buildInlineDiff_example
  show ?thesis by blast
qed

end
